theory Spec2Isabelle
  imports Complex_Main "HOL-Library.Sublist" "HOL-Library.Multiset"
begin

section \<open>Library boundary\<close>

text \<open>
  The program calls \<^verbatim>\<open>hashlib.sha256(...).hexdigest()\<close> and renders floats with
  \<^verbatim>\<open>str\<close> and with format specifications such as \<^verbatim>\<open>:.4f\<close>. These are functions of
  the Python runtime, not of the repository; the development is parametric in them. Every
  function that hashes, renders a float or computes with floats takes the record below as
  its first argument, and every general theorem holds for every such record. Floats that
  the program only stores, orders and renders (timestamps, amounts, votes, the elapsed
  time) are carried as rationals.

  The stakes and the age factor enter float arithmetic whose result decides whether
  \<^verbatim>\<open>random.choices\<close> accepts its weights, so they are values of \<open>pyfloat\<close>: a finite
  number, an infinity or nan. Addition and multiplication round and overflow as the
  runtime decides, hence they are fields of the record; converting an integer to a float
  raises \<^verbatim>\<open>OverflowError\<close> when it is too large, which is the result \<open>None\<close>. The
  comparisons are exact and are defined below.
\<close>

datatype pyfloat = FNum rat | FPosInf | FNegInf | FNaN

record pylib =
  sha256_hex :: "string \<Rightarrow> string"
  str_float :: "rat \<Rightarrow> string"
  fmt_float :: "nat \<Rightarrow> rat \<Rightarrow> string"
  fl_add :: "pyfloat \<Rightarrow> pyfloat \<Rightarrow> pyfloat"
  fl_mul :: "pyfloat \<Rightarrow> pyfloat \<Rightarrow> pyfloat"
  fl_of_int :: "int \<Rightarrow> pyfloat option"

text \<open>
  \<^verbatim>\<open>x == 0\<close>, \<^verbatim>\<open>x <= 0.0\<close>, \<^verbatim>\<open>x >= 0\<close> and \<^verbatim>\<open>math.isfinite(x)\<close>; every comparison with
  nan is false. A format specification renders the infinities and nan by name.
\<close>

definition fl_is_zero :: "pyfloat \<Rightarrow> bool" where
  "fl_is_zero x = (x = FNum 0)"

definition fl_le_zero :: "pyfloat \<Rightarrow> bool" where
  "fl_le_zero x = (case x of FNum r \<Rightarrow> r \<le> 0 | FNegInf \<Rightarrow> True | FPosInf \<Rightarrow> False | FNaN \<Rightarrow> False)"

definition fl_ge_zero :: "pyfloat \<Rightarrow> bool" where
  "fl_ge_zero x = (case x of FNum r \<Rightarrow> 0 \<le> r | FPosInf \<Rightarrow> True | FNegInf \<Rightarrow> False | FNaN \<Rightarrow> False)"

definition fl_isfinite :: "pyfloat \<Rightarrow> bool" where
  "fl_isfinite x = (case x of FNum r \<Rightarrow> True | FPosInf \<Rightarrow> False | FNegInf \<Rightarrow> False | FNaN \<Rightarrow> False)"

definition fmt_pyfloat :: "pylib \<Rightarrow> nat \<Rightarrow> pyfloat \<Rightarrow> string" where
  "fmt_pyfloat L n x =
     (case x of FNum r \<Rightarrow> fmt_float L n r | FPosInf \<Rightarrow> ''inf'' | FNegInf \<Rightarrow> ''-inf''
      | FNaN \<Rightarrow> ''nan'')"

text \<open>Exceptions that can leave a function of the model.\<close>

datatype error =
    IndexError
  | ZeroDivisionError
  | KeyError
  | ConfigError
  | SampleError
  | WeightsError
  | WeightsNotFinite
  | OverflowError
  | ValidationError

text \<open>\<^verbatim>\<open>str(i)\<close> for a Python integer: decimal digits, a leading minus sign when negative.\<close>

definition digit_char :: "nat \<Rightarrow> char" where
  "digit_char d = char_of (48 + d)"

fun str_nat :: "nat \<Rightarrow> string" where
  "str_nat n = (if n < 10 then [digit_char n] else str_nat (n div 10) @ [digit_char (n mod 10)])"

declare str_nat.simps [simp del]

definition str_int :: "int \<Rightarrow> string" where
  "str_int i = (if i < 0 then CHR ''-'' # str_nat (nat (- i)) else str_nat (nat i))"

text \<open>\<^verbatim>\<open>f"{v}"\<close> for an optional string: \<^verbatim>\<open>None\<close> renders as the word None.\<close>

definition str_opt :: "string option \<Rightarrow> string" where
  "str_opt v = (case v of None \<Rightarrow> ''None'' | Some s \<Rightarrow> s)"

text \<open>\<^verbatim>\<open>s.startswith(t)\<close>.\<close>

definition startswith :: "string \<Rightarrow> string \<Rightarrow> bool" where
  "startswith s t = prefix t s"

section \<open>core/transaction.py\<close>

record transaction =
  sender :: string
  recipient :: string
  amount :: rat
  tx_timestamp :: rat
  tx_id :: "string option"

text \<open>\<^verbatim>\<open>Transaction.compute_hash\<close>.\<close>

definition tx_compute_hash :: "pylib \<Rightarrow> transaction \<Rightarrow> string" where
  "tx_compute_hash L tx =
     sha256_hex L (sender tx @ recipient tx @ str_float L (amount tx)
                   @ str_float L (tx_timestamp tx))"

text \<open>\<^verbatim>\<open>Transaction.model_post_init\<close>: the identifier is computed once, when absent.\<close>

definition tx_post_init :: "pylib \<Rightarrow> transaction \<Rightarrow> transaction" where
  "tx_post_init L tx =
     (if tx_id tx = None then tx\<lparr>tx_id := Some (tx_compute_hash L tx)\<rparr> else tx)"

text \<open>
  Constructing a transaction: the field constraint \<^verbatim>\<open>gt=0\<close> refuses an amount that is
  not positive, then the hook above runs.
\<close>

definition transaction_init ::
  "pylib \<Rightarrow> string \<Rightarrow> string \<Rightarrow> rat \<Rightarrow> rat \<Rightarrow> string option \<Rightarrow> error + transaction" where
  "transaction_init L s r a t i =
     (if a \<le> 0 then Inl ValidationError
      else Inr (tx_post_init L
                  \<lparr>sender = s, recipient = r, amount = a, tx_timestamp = t, tx_id = i\<rparr>))"

section \<open>core/block.py\<close>

record block =
  index :: int
  timestamp :: rat
  transactions :: "transaction list"
  previous_hash :: string
  nonce :: int
  validator :: "string option"
  hash :: "string option"

text \<open>
  \<^verbatim>\<open>tx.tx_id or tx.compute_hash()\<close>: the stored identifier, unless it is \<^verbatim>\<open>None\<close> or the
  empty string (both falsy), in which case the hash is recomputed.
\<close>

definition tx_ident :: "pylib \<Rightarrow> transaction \<Rightarrow> string" where
  "tx_ident L tx =
     (case tx_id tx of
        None \<Rightarrow> tx_compute_hash L tx
      | Some s \<Rightarrow> if s = [] then tx_compute_hash L tx else s)"

text \<open>The string that \<^verbatim>\<open>Block.compute_hash\<close> feeds to SHA-256, and the digest.\<close>

definition block_data :: "pylib \<Rightarrow> block \<Rightarrow> string" where
  "block_data L b =
     str_int (index b) @ str_float L (timestamp b)
     @ concat (map (tx_ident L) (transactions b))
     @ previous_hash b @ str_int (nonce b) @ str_opt (validator b)"

definition compute_hash :: "pylib \<Rightarrow> block \<Rightarrow> string" where
  "compute_hash L b = sha256_hex L (block_data L b)"

text \<open>
  \<^verbatim>\<open>Block.mine\<close>: the loop has no bound, so the function is partial; \<open>None\<close> stands for
  a search that never ends. The result is the returned hash with the block as the loop
  left it (nonce advanced, hash stored).
\<close>

partial_function (option) mine :: "pylib \<Rightarrow> int \<Rightarrow> block \<Rightarrow> (string \<times> block) option" where
  "mine L difficulty b =
     (let target = replicate (nat difficulty) (CHR ''0'');
          candidate_hash = compute_hash L b
      in if startswith candidate_hash target
         then Some (candidate_hash, b\<lparr>hash := Some candidate_hash\<rparr>)
         else mine L difficulty (b\<lparr>nonce := nonce b + 1\<rparr>))"

text \<open>\<^verbatim>\<open>Block.genesis\<close>.\<close>

definition genesis :: "pylib \<Rightarrow> block" where
  "genesis L =
     (let blk = \<lparr>index = 0, timestamp = 0, transactions = [],
                 previous_hash = replicate 64 (CHR ''0''), nonce = 0,
                 validator = Some ''genesis'', hash = None\<rparr>
      in blk\<lparr>hash := Some (compute_hash L blk)\<rparr>)"

section \<open>core/chain.py\<close>

record blockchain =
  chain :: "block list"
  pending_transactions :: "transaction list"
  difficulty :: int

text \<open>\<^verbatim>\<open>Blockchain.model_post_init\<close>: an empty chain receives the genesis block.\<close>

definition bc_post_init :: "pylib \<Rightarrow> blockchain \<Rightarrow> blockchain" where
  "bc_post_init L bc = (if chain bc = [] then bc\<lparr>chain := [genesis L]\<rparr> else bc)"

text \<open>\<^verbatim>\<open>self.chain[-1]\<close> raises \<^verbatim>\<open>IndexError\<close> on an empty list.\<close>

definition latest_block :: "blockchain \<Rightarrow> error + block" where
  "latest_block bc = (if chain bc = [] then Inl IndexError else Inr (last (chain bc)))"

definition height :: "blockchain \<Rightarrow> int" where
  "height bc = int (length (chain bc))"

definition add_transaction :: "blockchain \<Rightarrow> transaction \<Rightarrow> blockchain" where
  "add_transaction bc tx = bc\<lparr>pending_transactions := pending_transactions bc @ [tx]\<rparr>"

text \<open>
  \<^verbatim>\<open>Blockchain.add_block\<close>. The comparisons are Python's: a string never equals
  \<^verbatim>\<open>None\<close>. The result is the returned flag and the chain after the call.
\<close>

definition add_block :: "pylib \<Rightarrow> blockchain \<Rightarrow> block \<Rightarrow> error + (bool \<times> blockchain)" where
  "add_block L bc b =
     (case latest_block bc of
        Inl e \<Rightarrow> Inl e
      | Inr latest \<Rightarrow>
          if Some (previous_hash b) \<noteq> hash latest then Inr (False, bc)
          else if hash b = None then Inr (False, bc)
          else if hash b \<noteq> Some (compute_hash L b) then Inr (False, bc)
          else Inr (True, bc\<lparr>chain := chain bc @ [b]\<rparr>))"

text \<open>
  \<^verbatim>\<open>Blockchain.create_next_block\<close>. The block's timestamp is the clock reading \<open>now\<close>
  taken by the field's default factory. \<^verbatim>\<open>latest.hash or ""\<close> is the empty string when
  the hash is \<^verbatim>\<open>None\<close> or empty. The pending pool is cleared only when no transaction
  list was supplied.
\<close>

definition create_next_block ::
  "blockchain \<Rightarrow> transaction list option \<Rightarrow> string option \<Rightarrow> rat \<Rightarrow> error + (block \<times> blockchain)" where
  "create_next_block bc txs_arg validator_arg now =
     (let txs = (case txs_arg of Some t \<Rightarrow> t | None \<Rightarrow> pending_transactions bc)
      in case latest_block bc of
           Inl e \<Rightarrow> Inl e
         | Inr latest \<Rightarrow>
             let blk = \<lparr>index = height bc, timestamp = now, transactions = txs,
                        previous_hash = (case hash latest of
                                           None \<Rightarrow> []
                                         | Some h \<Rightarrow> if h = [] then [] else h),
                        nonce = 0, validator = validator_arg, hash = None\<rparr>
             in Inr (blk, if txs_arg = None then bc\<lparr>pending_transactions := []\<rparr> else bc))"

text \<open>
  \<^verbatim>\<open>Blockchain.is_valid\<close>: the loop runs over \<^verbatim>\<open>range(1, len(self.chain))\<close>; \<open>i\<close> is
  the loop variable.
\<close>

function is_valid_loop :: "pylib \<Rightarrow> block list \<Rightarrow> nat \<Rightarrow> bool" where
  "is_valid_loop L bs i =
     (if i < length bs then
        (let current = bs ! i; previous = bs ! (i - 1)
         in if hash current \<noteq> Some (compute_hash L current) then False
            else if Some (previous_hash current) \<noteq> hash previous then False
            else is_valid_loop L bs (i + 1))
      else True)"
  by pat_completeness auto
termination
  by (relation "measure (\<lambda>(L, bs, i). length bs - i)") auto

declare is_valid_loop.simps [simp del]

definition is_valid :: "pylib \<Rightarrow> blockchain \<Rightarrow> bool" where
  "is_valid L bc = is_valid_loop L (chain bc) 1"

section \<open>The random source\<close>

text \<open>
  The module \<^verbatim>\<open>random\<close> is an input of the model: each call site receives the draw the
  generator made. \<^verbatim>\<open>random.choice(seq)\<close> returns the element at the drawn position and
  raises \<^verbatim>\<open>IndexError\<close> on an empty sequence. \<^verbatim>\<open>random.choices(population, weights, k=1)[0]\<close>
  accumulates the weights, adds \<^verbatim>\<open>0.0\<close> to the last sum, and raises \<^verbatim>\<open>ValueError\<close> when
  that total is not positive and again when it is not finite; otherwise it returns an
  element of the population. Apart from these checks the weights bias the generator, not
  the set of possible results.
  \<^verbatim>\<open>random.sample(population, k)\<close> raises \<^verbatim>\<open>ValueError\<close> when \<open>k\<close> is negative or larger
  than the population and otherwise returns the elements at the \<open>k\<close> distinct positions
  drawn. \<^verbatim>\<open>random.shuffle\<close> rearranges a list by the drawn permutation of its positions.
\<close>

definition py_choice :: "nat \<Rightarrow> 'a list \<Rightarrow> error + 'a" where
  "py_choice r xs = (if xs = [] then Inl IndexError else Inr (xs ! (r mod length xs)))"

definition py_choices1 :: "pylib \<Rightarrow> nat \<Rightarrow> 'a list \<Rightarrow> pyfloat list \<Rightarrow> error + 'a" where
  "py_choices1 L r xs weights =
     (if length weights \<noteq> length xs then Inl WeightsError
      else if xs = [] then Inl IndexError
      else
        (let total = fl_add L (foldl (fl_add L) (hd weights) (tl weights)) (FNum 0)
         in if fl_le_zero total then Inl WeightsError
            else if \<not> fl_isfinite total then Inl WeightsNotFinite
            else Inr (xs ! (r mod length xs))))"

definition sample_ok :: "nat \<Rightarrow> nat \<Rightarrow> nat list \<Rightarrow> bool" where
  "sample_ok n k positions \<longleftrightarrow>
     length positions = k \<and> distinct positions \<and> list_all (\<lambda>i. i < n) positions"

definition py_sample :: "nat list \<Rightarrow> 'a list \<Rightarrow> int \<Rightarrow> error + 'a list" where
  "py_sample positions xs k =
     (if k < 0 \<or> int (length xs) < k then Inl SampleError
      else Inr (map (\<lambda>i. xs ! i) positions))"

definition py_shuffle :: "nat list \<Rightarrow> 'a list \<Rightarrow> 'a list" where
  "py_shuffle perm xs = map (\<lambda>i. xs ! i) perm"

text \<open>\<^verbatim>\<open>xs[:n]\<close> for a Python integer \<open>n\<close>: a negative bound counts from the end.\<close>

definition py_take :: "int \<Rightarrow> 'a list \<Rightarrow> 'a list" where
  "py_take n xs = (if 0 \<le> n then take (nat n) xs else take (nat (int (length xs) + n)) xs)"

section \<open>consensus/base.py\<close>

record consensus_result =
  success :: bool
  block :: "block option"
  proposer :: "string option"
  rounds :: int
  message :: string

text \<open>A result built from \<^verbatim>\<open>success\<close> and \<^verbatim>\<open>message\<close> alone: the other fields default.\<close>

definition result_default :: "bool \<Rightarrow> string \<Rightarrow> consensus_result" where
  "result_default ok msg =
     \<lparr>success = ok, block = None, proposer = None, rounds = 1, message = msg\<rparr>"

section \<open>consensus/pow.py\<close>

record pow_state =
  pow_difficulty :: int

text \<open>
  \<^verbatim>\<open>ProofOfWork.run_round\<close>. \<open>r\<close> is the draw of \<^verbatim>\<open>random.choice\<close>, \<open>now\<close> the clock
  reading that stamps the new block, \<open>elapsed\<close> the measured search time. The call returns
  nothing (\<open>None\<close>) when the mining loop never ends. The object itself has no state that
  a round changes.
\<close>

definition pow_run_round ::
  "pylib \<Rightarrow> pow_state \<Rightarrow> blockchain \<Rightarrow> transaction list \<Rightarrow> string list \<Rightarrow> nat \<Rightarrow> rat \<Rightarrow> rat
     \<Rightarrow> (error + (consensus_result \<times> blockchain)) option" where
  "pow_run_round L st bc txs nodes r now elapsed =
     (if nodes = [] then Some (Inr (result_default False ''No miners available.'', bc))
      else case py_choice r nodes of
             Inl e \<Rightarrow> Some (Inl e)
           | Inr miner \<Rightarrow>
               (case create_next_block bc (Some txs) (Some miner) now of
                  Inl e \<Rightarrow> Some (Inl e)
                | Inr (blk0, bc1) \<Rightarrow>
                    (case mine L (pow_difficulty st) blk0 of
                       None \<Rightarrow> None
                     | Some (h, blk) \<Rightarrow>
                         (case add_block L bc1 blk of
                            Inl e \<Rightarrow> Some (Inl e)
                          | Inr (added, bc2) \<Rightarrow>
                              Some (Inr
                                (\<lparr>success = added, block = Some blk, proposer = Some miner,
                                  rounds = 1,
                                  message = ''Miner '' @ take 8 miner @ ''.. found nonce=''
                                    @ str_int (nonce blk) @ '' in '' @ fmt_float L 4 elapsed
                                    @ ''s (difficulty='' @ str_int (pow_difficulty st)
                                    @ ''). Block #'' @ str_int (index blk) @ '' added.''\<rparr>,
                                 bc2))))))"

section \<open>consensus/pos.py\<close>

record stake_info =
  si_address :: string
  stake :: pyfloat
  age :: int

text \<open>
  The dictionary \<^verbatim>\<open>validators\<close> is an association list in insertion order, which is the
  order in which Python iterates it.
\<close>

record pos_state =
  validators :: "(string \<times> stake_info) list"
  age_factor :: pyfloat

text \<open>
  \<^verbatim>\<open>ProofOfStake.__init__\<close>; \<open>stakes\<close> is the argument dictionary, in its iteration order.
  The field constraint \<^verbatim>\<open>ge=0\<close> of \<^verbatim>\<open>StakeInfo\<close> refuses a stake that is negative or
  nan; the age factor is stored as given.
\<close>

definition pos_init :: "(string \<times> pyfloat) list \<Rightarrow> pyfloat \<Rightarrow> error + pos_state" where
  "pos_init stakes af =
     (if list_ex (\<lambda>(addr, amount). \<not> fl_ge_zero amount) stakes then Inl ValidationError
      else Inr \<lparr>validators = map (\<lambda>(addr, amount).
                                    (addr, \<lparr>si_address = addr, stake = amount, age = 0\<rparr>)) stakes,
               age_factor = af\<rparr>)"

text \<open>
  The loop of \<^verbatim>\<open>_select_validator\<close>: the weight \<^verbatim>\<open>stake * (1.0 + age_factor * age)\<close> of
  each entry in turn; the integer age is converted to a float for the product.
\<close>

fun pos_weights :: "pylib \<Rightarrow> pyfloat \<Rightarrow> stake_info list \<Rightarrow> error + pyfloat list" where
  "pos_weights L af [] = Inr []"
| "pos_weights L af (info # rest) =
     (case fl_of_int L (age info) of
        None \<Rightarrow> Inl OverflowError
      | Some a \<Rightarrow>
          (case pos_weights L af rest of
             Inl e \<Rightarrow> Inl e
           | Inr ws \<Rightarrow> Inr (fl_mul L (stake info) (fl_add L (FNum 1) (fl_mul L af a)) # ws)))"

text \<open>\<^verbatim>\<open>sum(weights)\<close> starts from the integer 0.\<close>

definition pos_select_validator :: "pylib \<Rightarrow> pos_state \<Rightarrow> nat \<Rightarrow> error + string" where
  "pos_select_validator L st r =
     (let infos = map snd (validators st)
      in case pos_weights L (age_factor st) infos of
           Inl e \<Rightarrow> Inl e
         | Inr weights \<Rightarrow>
             (let addresses = map si_address infos;
                  total = foldl (fl_add L) (FNum 0) weights
              in if fl_is_zero total then py_choice r addresses
                 else py_choices1 L r addresses weights))"

text \<open>
  \<^verbatim>\<open>ProofOfStake.run_round\<close>. \<^verbatim>\<open>info\<close> is a reference to the proposer's entry, so the
  message shows its age after the update of the loop.
\<close>

definition pos_run_round ::
  "pylib \<Rightarrow> pos_state \<Rightarrow> blockchain \<Rightarrow> transaction list \<Rightarrow> string list \<Rightarrow> nat \<Rightarrow> rat
     \<Rightarrow> error + (consensus_result \<times> pos_state \<times> blockchain)" where
  "pos_run_round L st bc txs nodes r now =
     (if validators st = [] then Inr (result_default False ''No validators registered.'', st, bc)
      else case pos_select_validator L st r of
             Inl e \<Rightarrow> Inl e
           | Inr prop \<Rightarrow>
               (case map_of (validators st) prop of
                  None \<Rightarrow> Inl KeyError
                | Some info0 \<Rightarrow>
                    (case create_next_block bc (Some txs) (Some prop) now of
                       Inl e \<Rightarrow> Inl e
                     | Inr (blk0, bc1) \<Rightarrow>
                         (let blk = blk0\<lparr>hash := Some (compute_hash L blk0)\<rparr>
                          in case add_block L bc1 blk of
                               Inl e \<Rightarrow> Inl e
                             | Inr (added, bc2) \<Rightarrow>
                                 (let vs = (if added
                                            then map (\<lambda>(addr, v).
                                                   (addr, if addr = prop then v\<lparr>age := 0\<rparr>
                                                          else v\<lparr>age := age v + 1\<rparr>))
                                                 (validators st)
                                            else validators st);
                                      info = (if added then info0\<lparr>age := 0\<rparr> else info0)
                                  in Inr
                                    (\<lparr>success = added, block = Some blk, proposer = Some prop,
                                      rounds = 1,
                                      message = ''Validator '' @ take 8 prop
                                        @ ''.. selected (stake='' @ fmt_pyfloat L 1 (stake info)
                                        @ '', age='' @ str_int (age info) @ ''). Block #''
                                        @ str_int (index blk) @ '' added.''\<rparr>,
                                     st\<lparr>validators := vs\<rparr>, bc2))))))"

section \<open>consensus/dpos.py\<close>

record delegate =
  d_address :: string
  votes :: rat
  blocks_produced :: int

record dpos_state =
  candidates :: "(string \<times> delegate) list"
  num_delegates :: int
  active_delegates :: "string list"
  round_index :: int

text \<open>
  \<^verbatim>\<open>_elect_delegates\<close>: \<^verbatim>\<open>sorted(..., reverse=True)\<close> is a stable sort by descending votes;
  \<open>perm\<close> is the permutation drawn by \<^verbatim>\<open>random.shuffle\<close>.
\<close>

definition dpos_elect_delegates :: "dpos_state \<Rightarrow> nat list \<Rightarrow> dpos_state" where
  "dpos_elect_delegates st perm =
     (let sorted_candidates = sort_key (\<lambda>d. - votes d) (map snd (candidates st));
          elected = map d_address (py_take (num_delegates st) sorted_candidates)
      in st\<lparr>active_delegates := py_shuffle perm elected\<rparr>)"

definition dpos_init :: "(string \<times> rat) list \<Rightarrow> int \<Rightarrow> nat list \<Rightarrow> dpos_state" where
  "dpos_init vote_tally n perm =
     dpos_elect_delegates
       \<lparr>candidates = map (\<lambda>(addr, v).
                            (addr, \<lparr>d_address = addr, votes = v, blocks_produced = 0\<rparr>)) vote_tally,
        num_delegates = n, active_delegates = [], round_index = 0\<rparr>
       perm"

definition dpos_current_delegate :: "dpos_state \<Rightarrow> string option" where
  "dpos_current_delegate st =
     (if active_delegates st = [] then None
      else Some (active_delegates st
                   ! nat (round_index st mod int (length (active_delegates st)))))"

definition dpos_run_round ::
  "pylib \<Rightarrow> dpos_state \<Rightarrow> blockchain \<Rightarrow> transaction list \<Rightarrow> string list \<Rightarrow> rat
     \<Rightarrow> error + (consensus_result \<times> dpos_state \<times> blockchain)" where
  "dpos_run_round L st bc txs nodes now =
     (case dpos_current_delegate st of
        None \<Rightarrow> Inr (result_default False ''No active delegates elected.'', st, bc)
      | Some dlg \<Rightarrow>
          (case create_next_block bc (Some txs) (Some dlg) now of
             Inl e \<Rightarrow> Inl e
           | Inr (blk0, bc1) \<Rightarrow>
               (let blk = blk0\<lparr>hash := Some (compute_hash L blk0)\<rparr>
                in case add_block L bc1 blk of
                     Inl e \<Rightarrow> Inl e
                   | Inr (added, bc2) \<Rightarrow>
                       (let cands = (if added \<and> dlg \<in> fst ` set (candidates st)
                                     then map (\<lambda>(addr, d).
                                            (addr, if addr = dlg
                                                   then d\<lparr>blocks_produced := blocks_produced d + 1\<rparr>
                                                   else d))
                                          (candidates st)
                                     else candidates st);
                            st1 = st\<lparr>candidates := cands, round_index := round_index st + 1\<rparr>;
                            votes_str = (case map_of cands dlg of
                                           Some d \<Rightarrow> fmt_float L 1 (votes d)
                                         | None \<Rightarrow> ''?'')
                        in Inr
                          (\<lparr>success = added, block = Some blk, proposer = Some dlg, rounds = 1,
                            message = ''Delegate '' @ take 8 dlg @ ''.. (votes='' @ votes_str
                              @ '') produced Block #'' @ str_int (index blk)
                              @ '' [round-robin slot ''
                              @ str_int ((round_index st1 - 1)
                                         mod int (length (active_delegates st1)))
                              @ ''].''\<rparr>,
                           st1, bc2)))))"

section \<open>consensus/pbft.py\<close>

datatype message_type = PRE_PREPARE | PREPARE | COMMIT

record pbft_message =
  msg_type :: message_type
  msg_sender :: string
  block_hash :: string
  msg_view :: int

record pbft_node =
  address :: string
  is_byzantine :: bool
  prepares_received :: "string set"
  commits_received :: "string set"
  prepared :: bool
  committed :: bool

record pbft_state =
  node_list :: "string list"
  byzantine_count :: int
  view :: int
  pbft_nodes :: "(string \<times> pbft_node) list"

text \<open>
  Storing under a key of a dictionary: an existing key keeps its position and takes the new
  value, a new key goes to the end.
\<close>

fun dict_set :: "'k \<Rightarrow> 'v \<Rightarrow> ('k \<times> 'v) list \<Rightarrow> ('k \<times> 'v) list" where
  "dict_set k v [] = [(k, v)]"
| "dict_set k v (p # ps) = (if fst p = k then (k, v) # ps else p # dict_set k v ps)"

text \<open>
  \<^verbatim>\<open>PracticalBFT.__init__\<close>. \<open>positions\<close> is the draw of \<^verbatim>\<open>random.sample\<close>. The bound
  is checked first and raises the configuration error; \<^verbatim>\<open>//\<close> is floor division, as
  \<open>div\<close> on integers is.
\<close>

definition pbft_init :: "string list \<Rightarrow> int \<Rightarrow> nat list \<Rightarrow> error + pbft_state" where
  "pbft_init nodes byzantine_nodes positions =
     (if byzantine_nodes > (int (length nodes) - 1) div 3 then Inl ConfigError
      else case py_sample positions nodes byzantine_nodes of
             Inl e \<Rightarrow> Inl e
           | Inr drawn \<Rightarrow>
               (let byzantine_set = set drawn
                in Inr \<lparr>node_list = nodes, byzantine_count = byzantine_nodes, view = 0,
                        pbft_nodes =
                          foldl (\<lambda>d addr.
                                   dict_set addr
                                     \<lparr>address = addr, is_byzantine = (addr \<in> byzantine_set),
                                       prepares_received = {}, commits_received = {},
                                       prepared = False, committed = False\<rparr> d)
                                [] nodes\<rparr>))"

definition quorum :: "pbft_state \<Rightarrow> int" where
  "quorum st = 2 * byzantine_count st + 1"

definition reset_round :: "pbft_state \<Rightarrow> pbft_state" where
  "reset_round st =
     st\<lparr>pbft_nodes :=
          map (\<lambda>(a, n). (a, n\<lparr>prepares_received := {}, commits_received := {},
                              prepared := False, committed := False\<rparr>))
              (pbft_nodes st)\<rparr>"

definition phase_pre_prepare :: "pylib \<Rightarrow> pbft_state \<Rightarrow> string \<Rightarrow> block \<Rightarrow> pbft_message list" where
  "phase_pre_prepare L st leader blk =
     [\<lparr>msg_type = PRE_PREPARE, msg_sender = leader, block_hash = compute_hash L blk,
       msg_view = view st\<rparr>]"

definition phase_prepare :: "pbft_state \<Rightarrow> string \<Rightarrow> pbft_message list" where
  "phase_prepare st bh =
     map (\<lambda>n. \<lparr>msg_type = PREPARE, msg_sender = address n, block_hash = bh,
                msg_view = view st\<rparr>)
         (filter (\<lambda>n. \<not> is_byzantine n) (map snd (pbft_nodes st)))"

text \<open>
  \<^verbatim>\<open>_phase_commit\<close> returns the COMMIT messages and marks their senders \<^verbatim>\<open>prepared\<close>;
  the model returns the messages with the state so changed.
\<close>

definition phase_commit :: "pbft_state \<Rightarrow> string \<Rightarrow> pbft_message list \<times> pbft_state" where
  "phase_commit st bh =
     (let ready = (\<lambda>n. \<not> is_byzantine n \<and> quorum st \<le> int (card (prepares_received n)))
      in (map (\<lambda>n. \<lparr>msg_type = COMMIT, msg_sender = address n, block_hash = bh,
                     msg_view = view st\<rparr>)
              (filter ready (map snd (pbft_nodes st))),
          st\<lparr>pbft_nodes :=
               map (\<lambda>(a, n). (a, if ready n then n\<lparr>prepared := True\<rparr> else n))
                   (pbft_nodes st)\<rparr>))"

text \<open>The two delivery loops of \<^verbatim>\<open>run_round\<close>: every message reaches every node.\<close>

definition deliver_prepares :: "pbft_message list \<Rightarrow> pbft_state \<Rightarrow> pbft_state" where
  "deliver_prepares msgs st =
     fold (\<lambda>msg s.
             s\<lparr>pbft_nodes :=
                 map (\<lambda>(a, n). (a, n\<lparr>prepares_received :=
                                        insert (msg_sender msg) (prepares_received n)\<rparr>))
                     (pbft_nodes s)\<rparr>)
          msgs st"

definition deliver_commits :: "pbft_message list \<Rightarrow> pbft_state \<Rightarrow> pbft_state" where
  "deliver_commits msgs st =
     fold (\<lambda>msg s.
             s\<lparr>pbft_nodes :=
                 map (\<lambda>(a, n). (a, n\<lparr>commits_received :=
                                        insert (msg_sender msg) (commits_received n)\<rparr>))
                     (pbft_nodes s)\<rparr>)
          msgs st"

definition committed_count :: "pbft_state \<Rightarrow> int" where
  "committed_count st =
     int (length (filter (\<lambda>n. quorum st \<le> int (card (commits_received n)) \<and> \<not> is_byzantine n)
                         (map snd (pbft_nodes st))))"

text \<open>
  \<^verbatim>\<open>PracticalBFT.run_round\<close>. \<^verbatim>\<open>self._view % n\<close> raises \<^verbatim>\<open>ZeroDivisionError\<close> for an
  empty validator list.
\<close>

definition pbft_run_round ::
  "pylib \<Rightarrow> pbft_state \<Rightarrow> blockchain \<Rightarrow> transaction list \<Rightarrow> string list \<Rightarrow> rat
     \<Rightarrow> error + (consensus_result \<times> pbft_state \<times> blockchain)" where
  "pbft_run_round L st0 bc txs nodes now =
     (let st1 = reset_round st0;
          n = int (length (node_list st1));
          f = byzantine_count st1
      in if n = 0 then Inl ZeroDivisionError
         else
           (let leader = node_list st1 ! nat (view st1 mod n)
            in case create_next_block bc (Some txs) (Some leader) now of
                 Inl e \<Rightarrow> Inl e
               | Inr (blk0, bc1) \<Rightarrow>
                   (let blk = blk0\<lparr>hash := Some (compute_hash L blk0)\<rparr>;
                        bh = compute_hash L blk0;
                        pre_prepare_msgs = phase_pre_prepare L st1 leader blk;
                        prepare_msgs = phase_prepare st1 bh;
                        st2 = deliver_prepares prepare_msgs st1;
                        (commit_msgs, st3) = phase_commit st2 bh;
                        st4 = deliver_commits commit_msgs st3;
                        cnt = committed_count st4;
                        total_phases = 3;
                        consensus_reached = (quorum st4 \<le> cnt)
                    in if consensus_reached then
                         (case add_block L bc1 blk of
                            Inl e \<Rightarrow> Inl e
                          | Inr (added, bc2) \<Rightarrow>
                              Inr (\<lparr>success = added, block = Some blk, proposer = Some leader,
                                    rounds = total_phases,
                                    message = ''PBFT consensus reached in '' @ str_int total_phases
                                      @ '' phases. Leader='' @ take 8 leader @ ''.., prepares=''
                                      @ str_int (int (length prepare_msgs)) @ '', commits=''
                                      @ str_int (int (length commit_msgs)) @ '', byzantine=''
                                      @ str_int f @ ''/'' @ str_int n @ ''. Block #''
                                      @ str_int (index blk) @ '' finalized.''\<rparr>,
                                   st4\<lparr>view := view st4 + 1\<rparr>, bc2))
                       else
                         Inr (\<lparr>success = False, block = None, proposer = Some leader,
                               rounds = total_phases,
                               message = ''PBFT failed to reach consensus. Only ''
                                 @ str_int cnt @ ''/'' @ str_int (quorum st4)
                                 @ '' nodes committed (byzantine='' @ str_int f @ ''/''
                                 @ str_int n @ '').''\<rparr>,
                              st4\<lparr>view := view st4 + 1\<rparr>, bc1))))"

text \<open>
  The states an instance can be in: the constructed one, and each state that a call to
  \<open>pbft_run_round\<close> leaves behind.
\<close>

inductive pbft_reachable :: "pylib \<Rightarrow> pbft_state \<Rightarrow> pbft_state \<Rightarrow> bool"
  for L :: pylib and st0 :: pbft_state where
  reach_init: "pbft_reachable L st0 st0"
| reach_round:
    "pbft_reachable L st0 st \<Longrightarrow> pbft_run_round L st bc txs nodes now = Inr (res, st', bc')
       \<Longrightarrow> pbft_reachable L st0 st'"

section \<open>network/simulator.py: the loop of rounds\<close>

text \<open>
  \<^verbatim>\<open>NetworkSimulator.run\<close> calls \<^verbatim>\<open>run_round\<close> once per round on the same chain and the
  same list of node addresses. The transactions generated for each round and the clock
  reading of each round are the elements of \<open>inputs\<close>; the results are collected in order.
  The loop is written here for the delegated protocol and for the stake-based one, whose
  rounds take the draw of the random module as a third input.
\<close>

fun dpos_run_rounds ::
  "pylib \<Rightarrow> dpos_state \<Rightarrow> blockchain \<Rightarrow> string list \<Rightarrow> (transaction list \<times> rat) list
     \<Rightarrow> error + (consensus_result list \<times> dpos_state \<times> blockchain)" where
  "dpos_run_rounds L st bc nodes [] = Inr ([], st, bc)"
| "dpos_run_rounds L st bc nodes ((txs, now) # rest) =
     (case dpos_run_round L st bc txs nodes now of
        Inl e \<Rightarrow> Inl e
      | Inr (res, st1, bc1) \<Rightarrow>
          (case dpos_run_rounds L st1 bc1 nodes rest of
             Inl e \<Rightarrow> Inl e
           | Inr (results, st2, bc2) \<Rightarrow> Inr (res # results, st2, bc2)))"


section \<open>A concrete library\<close>

text \<open>
  A digest, renderers and an arithmetic used where the development is instantiated at
  concrete inputs: the identity in place of SHA-256 (so that distinct inputs have distinct
  digests), constant float renderings, and the arithmetic of the rationals on finite
  values, without rounding or overflow, with the usual rules for infinities and nan.
\<close>

fun exact_add :: "pyfloat \<Rightarrow> pyfloat \<Rightarrow> pyfloat" where
  "exact_add (FNum a) (FNum b) = FNum (a + b)"
| "exact_add FNaN y = FNaN"
| "exact_add x FNaN = FNaN"
| "exact_add FPosInf FNegInf = FNaN"
| "exact_add FNegInf FPosInf = FNaN"
| "exact_add FPosInf y = FPosInf"
| "exact_add FNegInf y = FNegInf"
| "exact_add (FNum a) y = y"

definition exact_scale :: "bool \<Rightarrow> rat \<Rightarrow> pyfloat" where
  "exact_scale positive r =
     (if r = 0 then FNaN else if (0 < r) = positive then FPosInf else FNegInf)"

fun exact_mul :: "pyfloat \<Rightarrow> pyfloat \<Rightarrow> pyfloat" where
  "exact_mul (FNum a) (FNum b) = FNum (a * b)"
| "exact_mul FNaN y = FNaN"
| "exact_mul x FNaN = FNaN"
| "exact_mul FPosInf FPosInf = FPosInf"
| "exact_mul FNegInf FNegInf = FPosInf"
| "exact_mul FPosInf FNegInf = FNegInf"
| "exact_mul FNegInf FPosInf = FNegInf"
| "exact_mul FPosInf (FNum b) = exact_scale True b"
| "exact_mul FNegInf (FNum b) = exact_scale False b"
| "exact_mul (FNum a) FPosInf = exact_scale True a"
| "exact_mul (FNum a) FNegInf = exact_scale False a"

definition plain_lib :: pylib where
  "plain_lib =
     \<lparr>sha256_hex = (\<lambda>s. s), str_float = (\<lambda>r. ''0.0''), fmt_float = (\<lambda>n r. ''0.0''),
      fl_add = exact_add, fl_mul = exact_mul, fl_of_int = (\<lambda>i. Some (FNum (of_int i)))\<rparr>"

text \<open>
  The assignment \<^verbatim>\<open>block.hash = block.compute_hash()\<close>, and the values at which the
  theorems below are instantiated: the chain that \<^verbatim>\<open>Blockchain()\<close> builds, a draft block
  that links to its genesis block, a library whose digest reverses its input, and a draft
  whose nonce starts at 7.
\<close>

definition seal :: "pylib \<Rightarrow> block \<Rightarrow> block" where
  "seal L b = b\<lparr>hash := Some (compute_hash L b)\<rparr>"

definition unit_chain :: blockchain where
  "unit_chain = bc_post_init plain_lib \<lparr>chain = [], pending_transactions = [], difficulty = 2\<rparr>"

definition draft_block :: "int \<Rightarrow> block" where
  "draft_block i =
     \<lparr>index = i, timestamp = 0, transactions = [],
      previous_hash = compute_hash plain_lib (genesis plain_lib), nonce = 0,
      validator = Some ''v'', hash = None\<rparr>"

definition rev_lib :: pylib where
  "rev_lib = plain_lib\<lparr>sha256_hex := rev\<rparr>"

definition nonce7_block :: block where
  "nonce7_block =
     \<lparr>index = 1, timestamp = 0, transactions = [], previous_hash = ''ab'', nonce = 7,
      validator = Some [], hash = None\<rparr>"

text \<open>
  The draft that \<open>create_next_block\<close> builds on a non-empty chain when the transactions
  are supplied, and the outcome that the interface of \<^verbatim>\<open>run_round\<close> asks for: a
  successful round has appended the block it reports and changed nothing else, a failed
  round has left the chain as it was.
\<close>

definition next_draft :: "blockchain \<Rightarrow> transaction list \<Rightarrow> string option \<Rightarrow> rat \<Rightarrow> block" where
  "next_draft bc txs v now =
     \<lparr>index = height bc, timestamp = now, transactions = txs,
      previous_hash = (case hash (last (chain bc)) of None \<Rightarrow> [] | Some h \<Rightarrow> h),
      nonce = 0, validator = v, hash = None\<rparr>"


text \<open>
  The invariant of the validator table that \<open>pos_init\<close> sets up and every round keeps:
  every entry is stored under its own address. Then the condition under which
  \<^verbatim>\<open>_select_validator\<close> returns a validator: the ages convert to floats, and the total
  weight is zero (uniform choice) or the total that \<^verbatim>\<open>random.choices\<close> computes is
  positive and finite.
\<close>

definition pos_wf :: "pos_state \<Rightarrow> bool" where
  "pos_wf st = list_all (\<lambda>(k, v). si_address v = k) (validators st)"

definition pos_selectable :: "pylib \<Rightarrow> pos_state \<Rightarrow> bool" where
  "pos_selectable L st =
     (case pos_weights L (age_factor st) (map snd (validators st)) of
        Inl e \<Rightarrow> False
      | Inr weights \<Rightarrow>
          fl_is_zero (foldl (fl_add L) (FNum 0) weights)
          \<or> (let total = fl_add L (foldl (fl_add L) (hd weights) (tl weights)) (FNum 0)
              in \<not> fl_le_zero total \<and> fl_isfinite total))"


text \<open>
  Instances used below: seven validator addresses, the state that the constructor of the
  Byzantine protocol builds for them when positions 1 and 4 are drawn as faulty, a
  work-based instance of difficulty 0, the stake table that \<open>pos_init\<close> builds for two
  validators, a delegate roster, and a chain whose only block was stored without a hash.
\<close>

definition seven_nodes :: "string list" where
  "seven_nodes = [''n0'', ''n1'', ''n2'', ''n3'', ''n4'', ''n5'', ''n6'']"

definition seven_pbft :: pbft_state where
  "seven_pbft =
     \<lparr>node_list = seven_nodes, byzantine_count = 2, view = 0,
      pbft_nodes = map (\<lambda>a. (a, \<lparr>address = a, is_byzantine = (a = ''n1'' \<or> a = ''n4''),
                                   prepares_received = {}, commits_received = {},
                                   prepared = False, committed = False\<rparr>)) seven_nodes\<rparr>"

definition easy_pow :: pow_state where
  "easy_pow = \<lparr>pow_difficulty = 0\<rparr>"

definition two_stakes :: pos_state where
  "two_stakes =
     \<lparr>validators = [(''v0'', \<lparr>si_address = ''v0'', stake = FNum 10, age = 0\<rparr>),
                    (''v1'', \<lparr>si_address = ''v1'', stake = FNum 20, age = 0\<rparr>)],
      age_factor = FNum (1 / 10)\<rparr>"

definition three_delegates :: dpos_state where
  "three_delegates = dpos_init [(''d0'', 300), (''d1'', 200), (''d2'', 100)] 3 [2, 0, 1]"

definition unhashed_chain :: blockchain where
  "unhashed_chain =
     \<lparr>chain = [\<lparr>index = 0, timestamp = 0, transactions = [],
                 previous_hash = replicate 64 (CHR ''0''), nonce = 0,
                 validator = None, hash = None\<rparr>],
      pending_transactions = [], difficulty = 2\<rparr>"


text \<open>A delegated instance built from an empty vote tally: it has no active delegate.\<close>

definition no_delegates :: dpos_state where
  "no_delegates = dpos_init [] 3 []"


text \<open>
  Overwriting a field of a block that is already in the chain, as Python allows on the
  shared objects: the nonce of block \<open>i\<close>, or transaction \<open>j\<close> of block \<open>i\<close>. The
  stored hash of the block is left as it was.
\<close>

definition tamper_nonce :: "blockchain \<Rightarrow> nat \<Rightarrow> int \<Rightarrow> blockchain" where
  "tamper_nonce bc i n = bc\<lparr>chain := (chain bc)[i := (chain bc ! i)\<lparr>nonce := n\<rparr>]\<rparr>"

definition tamper_transaction :: "blockchain \<Rightarrow> nat \<Rightarrow> nat \<Rightarrow> transaction \<Rightarrow> blockchain" where
  "tamper_transaction bc i j tx =
     bc\<lparr>chain := (chain bc)[i := (chain bc ! i)
                       \<lparr>transactions := (transactions (chain bc ! i))[j := tx]\<rparr>]\<rparr>"

text \<open>
  A transaction as its constructor leaves it, the block that carries it on top of the
  genesis block, and the chain of these two blocks.
\<close>

definition pay_tx :: transaction where
  "pay_tx = tx_post_init plain_lib
     \<lparr>sender = ''alice'', recipient = ''bob'', amount = 5, tx_timestamp = 0, tx_id = None\<rparr>"

definition first_block :: block where
  "first_block = seal plain_lib (next_draft unit_chain [pay_tx] (Some ''v'') 0)"

definition two_chain :: blockchain where
  "two_chain = unit_chain\<lparr>chain := chain unit_chain @ [first_block]\<rparr>"


text \<open>
  What a round of the Byzantine protocol never changes (the validator list, the Byzantine
  count, and the address and flag stored under each key), the addresses of the honest
  nodes in dictionary order, and the condition under which the honest nodes alone fill
  the quorum.
\<close>

definition pbft_config :: "pbft_state \<Rightarrow> string list \<times> int \<times> (string \<times> string \<times> bool) list" where
  "pbft_config st =
     (node_list st, byzantine_count st,
      map (\<lambda>(a, n). (a, address n, is_byzantine n)) (pbft_nodes st))"

definition honest_addresses :: "pbft_state \<Rightarrow> string list" where
  "honest_addresses st =
     map address (filter (\<lambda>n. \<not> is_byzantine n) (map snd (pbft_nodes st)))"

definition pbft_live :: "pbft_state \<Rightarrow> bool" where
  "pbft_live st \<longleftrightarrow>
     node_list st \<noteq> [] \<and> distinct (map address (map snd (pbft_nodes st)))
     \<and> quorum st \<le> int (length (honest_addresses st))"











section \<open>Facts about the core\<close>

lemma is_valid_loop_iff:
  "is_valid_loop L bs i \<longleftrightarrow>
     (\<forall>j. i \<le> j \<and> j < length bs \<longrightarrow>
        hash (bs ! j) = Some (compute_hash L (bs ! j))
        \<and> Some (previous_hash (bs ! j)) = hash (bs ! (j - 1)))"
proof (induction L bs i rule: is_valid_loop.induct)
  case (1 L bs i)
  show ?case
  proof (cases "i < length bs")
    case False
    then have "is_valid_loop L bs i" by (simp add: is_valid_loop.simps [of L bs i])
    moreover have "\<And>j. i \<le> j \<and> j < length bs \<Longrightarrow> False" using False by linarith
    ultimately show ?thesis by blast
  next
    case True
    let ?ok = "\<lambda>j. hash (bs ! j) = Some (compute_hash L (bs ! j))
                    \<and> Some (previous_hash (bs ! j)) = hash (bs ! (j - 1))"
    show ?thesis
    proof (cases "?ok i")
      case False
      have "\<not> is_valid_loop L bs i"
        using True False by (auto simp add: is_valid_loop.simps [of L bs i] Let_def)
      moreover have "\<not> (\<forall>j. i \<le> j \<and> j < length bs \<longrightarrow> ?ok j)"
        using True False by blast
      ultimately show ?thesis by blast
    next
      case ok: True
      have step: "is_valid_loop L bs i = is_valid_loop L bs (i + 1)"
        using True ok by (simp add: is_valid_loop.simps [of L bs i] Let_def)
      have ih: "is_valid_loop L bs (i + 1) \<longleftrightarrow> (\<forall>j. i + 1 \<le> j \<and> j < length bs \<longrightarrow> ?ok j)"
        using "1.IH" [OF True refl refl] ok by auto
      have "(\<forall>j. i \<le> j \<and> j < length bs \<longrightarrow> ?ok j) \<longleftrightarrow> (\<forall>j. i + 1 \<le> j \<and> j < length bs \<longrightarrow> ?ok j)"
      proof
        assume "\<forall>j. i \<le> j \<and> j < length bs \<longrightarrow> ?ok j"
        then show "\<forall>j. i + 1 \<le> j \<and> j < length bs \<longrightarrow> ?ok j" by auto
      next
        assume a: "\<forall>j. i + 1 \<le> j \<and> j < length bs \<longrightarrow> ?ok j"
        show "\<forall>j. i \<le> j \<and> j < length bs \<longrightarrow> ?ok j"
        proof (intro allI impI)
          fix j assume "i \<le> j \<and> j < length bs"
          then consider "j = i" | "i + 1 \<le> j \<and> j < length bs" by linarith
          then show "?ok j" using ok a by cases auto
        qed
      qed
      with step ih show ?thesis by simp
    qed
  qed
qed

lemma bc_post_init_nonempty: "chain (bc_post_init L bc) \<noteq> []"
  by (simp add: bc_post_init_def)

lemma add_block_nonempty:
  "add_block L bc b = Inr (ok, bc') \<Longrightarrow> chain bc' \<noteq> []"
  by (auto simp add: add_block_def latest_block_def split: if_splits)

lemma add_block_accept_iff:
  assumes "chain bc \<noteq> []"
  shows "add_block L bc b =
           (if Some (previous_hash b) = hash (last (chain bc))
               \<and> hash b = Some (compute_hash L b)
            then Inr (True, bc\<lparr>chain := chain bc @ [b]\<rparr>)
            else Inr (False, bc))"
  using assms by (auto simp add: add_block_def latest_block_def)


lemma block_data_hash_irrelevant: "block_data L (b\<lparr>hash := h\<rparr>) = block_data L b"
  by (simp add: block_data_def)

lemma compute_hash_hash_upd: "compute_hash L (b\<lparr>hash := h\<rparr>) = compute_hash L b"
  by (simp add: compute_hash_def block_data_hash_irrelevant)

lemma seal_sealed: "hash (seal L b) = Some (compute_hash L (seal L b))"
  by (simp add: seal_def compute_hash_hash_upd)

lemma seal_fields:
  "previous_hash (seal L b) = previous_hash b" "index (seal L b) = index b"
  "nonce (seal L b) = nonce b" "transactions (seal L b) = transactions b"
  by (simp_all add: seal_def)

lemma unit_chain_chain: "chain unit_chain = [genesis plain_lib]"
  by (simp add: unit_chain_def bc_post_init_def)

lemma genesis_hash: "hash (genesis L) = Some (compute_hash L (genesis L))"
  by (simp add: genesis_def Let_def compute_hash_def block_data_def)

lemma draft_block_fields:
  "previous_hash (draft_block i) = compute_hash plain_lib (genesis plain_lib)"
  "index (draft_block i) = i"
  by (simp_all add: draft_block_def)

subsection \<open>Mining\<close>

lemma mine_zero: "mine L 0 b = Some (compute_hash L b, b\<lparr>hash := Some (compute_hash L b)\<rparr>)"
  by (subst mine.simps) (simp add: startswith_def Let_def)

lemma mine_result:
  assumes "mine L d b = Some r"
  shows "startswith (fst r) (replicate (nat d) (CHR ''0'')) \<and> hash (snd r) = Some (fst r)
         \<and> fst r = compute_hash L (snd r)"
proof (rule mine.raw_induct
    [where P = "\<lambda>L d b r. startswith (fst r) (replicate (nat d) (CHR ''0''))
                  \<and> hash (snd r) = Some (fst r) \<and> fst r = compute_hash L (snd r)",
     OF _ assms])
  fix f L d b r
  assume ih: "\<And>L d b r. f L d b = Some r \<Longrightarrow>
                 startswith (fst r) (replicate (nat d) (CHR ''0''))
                 \<and> hash (snd r) = Some (fst r) \<and> fst r = compute_hash L (snd r)"
    and eq: "(let target = replicate (nat d) (CHR ''0''); candidate_hash = compute_hash L b
              in if startswith candidate_hash target
                 then Some (candidate_hash, b\<lparr>hash := Some candidate_hash\<rparr>)
                 else f L d (b\<lparr>nonce := nonce b + 1\<rparr>)) = Some r"
  show "startswith (fst r) (replicate (nat d) (CHR ''0''))
        \<and> hash (snd r) = Some (fst r) \<and> fst r = compute_hash L (snd r)"
  proof (cases "startswith (compute_hash L b) (replicate (nat d) (CHR ''0''))")
    case True
    with eq have "r = (compute_hash L b, b\<lparr>hash := Some (compute_hash L b)\<rparr>)"
      by (simp add: Let_def)
    then show ?thesis using True by (simp add: compute_hash_hash_upd)
  next
    case False
    with eq have "f L d (b\<lparr>nonce := nonce b + 1\<rparr>) = Some r"
      by (simp add: Let_def)
    then show ?thesis by (rule ih)
  qed
qed

lemma mine_step_fail:
  "\<not> startswith (compute_hash L b) (replicate (nat d) (CHR ''0''))
     \<Longrightarrow> mine L d b = mine L d (b\<lparr>nonce := nonce b + 1\<rparr>)"
  by (subst mine.simps) (simp add: Let_def)

lemma mine_step_ok:
  "startswith (compute_hash L b) (replicate (nat d) (CHR ''0''))
     \<Longrightarrow> mine L d b = Some (compute_hash L b, b\<lparr>hash := Some (compute_hash L b)\<rparr>)"
  by (subst mine.simps) (simp add: Let_def)

lemma mine7: "mine rev_lib 1 nonce7_block
   = Some (''01ba0.01'', nonce7_block\<lparr>nonce := 10, hash := Some ''01ba0.01''\<rparr>)"
proof -
  let ?b8 = "nonce7_block\<lparr>nonce := nonce nonce7_block + 1\<rparr>"
  let ?b9 = "?b8\<lparr>nonce := nonce ?b8 + 1\<rparr>"
  let ?b10 = "?b9\<lparr>nonce := nonce ?b9 + 1\<rparr>"
  have f7: "\<not> startswith (compute_hash rev_lib nonce7_block) (replicate (nat 1) (CHR ''0''))"
    by code_simp
  have f8: "\<not> startswith (compute_hash rev_lib ?b8) (replicate (nat 1) (CHR ''0''))"
    by code_simp
  have f9: "\<not> startswith (compute_hash rev_lib ?b9) (replicate (nat 1) (CHR ''0''))"
    by code_simp
  have s10: "startswith (compute_hash rev_lib ?b10) (replicate (nat 1) (CHR ''0''))"
    by code_simp
  have r: "(compute_hash rev_lib ?b10, ?b10\<lparr>hash := Some (compute_hash rev_lib ?b10)\<rparr>)
           = (''01ba0.01'', nonce7_block\<lparr>nonce := 10, hash := Some ''01ba0.01''\<rparr>)"
    by code_simp
  have "mine rev_lib 1 nonce7_block = mine rev_lib 1 ?b8" by (rule mine_step_fail [OF f7])
  also have "\<dots> = mine rev_lib 1 ?b9" by (rule mine_step_fail [OF f8])
  also have "\<dots> = mine rev_lib 1 ?b10" by (rule mine_step_fail [OF f9])
  also have "\<dots> = Some (compute_hash rev_lib ?b10, ?b10\<lparr>hash := Some (compute_hash rev_lib ?b10)\<rparr>)"
    by (rule mine_step_ok [OF s10])
  finally show ?thesis by (simp only: r)
qed


subsection \<open>One round of each protocol\<close>

lemma create_next_block_supplied:
  "chain bc \<noteq> [] \<Longrightarrow>
     create_next_block bc (Some txs) v now = Inr (next_draft bc txs v now, bc)"
  by (auto simp add: create_next_block_def latest_block_def next_draft_def Let_def
           split: option.splits)

lemma next_draft_link:
  "Some (previous_hash (next_draft bc txs v now)) = hash (last (chain bc))
     \<longleftrightarrow> hash (last (chain bc)) \<noteq> None"
  by (auto simp add: next_draft_def split: option.splits)

lemma add_block_sealed_draft:
  "chain bc \<noteq> [] \<Longrightarrow>
     add_block L bc (seal L (next_draft bc txs v now))
       = (if hash (last (chain bc)) = None then Inr (False, bc)
          else Inr (True, bc\<lparr>chain := chain bc @ [seal L (next_draft bc txs v now)]\<rparr>))"
  using next_draft_link [of bc txs v now]
  by (auto simp add: add_block_def latest_block_def seal_sealed seal_fields)

lemma seal_alt: "b\<lparr>hash := Some (compute_hash L b)\<rparr> = seal L b"
  by (simp add: seal_def)


lemma pos_weights_length:
  "pos_weights L af infos = Inr ws \<Longrightarrow> length ws = length infos"
  by (induction infos arbitrary: ws) (auto split: option.splits sum.splits)

lemma pos_select_ok:
  assumes "validators st \<noteq> []" and "pos_selectable L st"
  shows "pos_select_validator L st r
           = Inr (map si_address (map snd (validators st)) ! (r mod length (validators st)))"
proof (cases "pos_weights L (age_factor st) (map snd (validators st))")
  case (Inl e)
  with assms(2) show ?thesis by (simp add: pos_selectable_def)
next
  case (Inr ws)
  from pos_weights_length [OF Inr] have l: "length ws = length (validators st)" by simp
  from assms Inr l show ?thesis
    by (auto simp add: pos_selectable_def pos_select_validator_def py_choice_def py_choices1_def
        Let_def)
qed


lemma pos_wf_lookup:
  assumes "pos_wf st" and "p \<in> si_address ` snd ` set (validators st)"
  shows "\<exists>info. map_of (validators st) p = Some info"
proof -
  from assms(2) obtain k v where kv: "(k, v) \<in> set (validators st)" "p = si_address v" by auto
  with assms(1) have "k = p" by (auto simp add: pos_wf_def list_all_iff)
  with kv have "p \<in> fst ` set (validators st)" by force
  then show ?thesis by (metis map_of_eq_None_iff not_None_eq)
qed





lemma mine_nonpos:
  "d \<le> 0 \<Longrightarrow> mine L d b = Some (compute_hash L b, b\<lparr>hash := Some (compute_hash L b)\<rparr>)"
  by (subst mine.simps) (simp add: startswith_def Let_def)

lemma mine_keeps_link:
  assumes "mine L d b = Some r"
  shows "previous_hash (snd r) = previous_hash b"
proof (rule mine.raw_induct
    [where P = "\<lambda>L d b r. previous_hash (snd r) = previous_hash b", OF _ assms])
  fix f L d b r
  assume ih: "\<And>L d b r. f L d b = Some r \<Longrightarrow> previous_hash (snd r) = previous_hash b"
    and eq: "(let target = replicate (nat d) (CHR ''0''); candidate_hash = compute_hash L b
              in if startswith candidate_hash target
                 then Some (candidate_hash, b\<lparr>hash := Some candidate_hash\<rparr>)
                 else f L d (b\<lparr>nonce := nonce b + 1\<rparr>)) = Some r"
  show "previous_hash (snd r) = previous_hash b"
  proof (cases "startswith (compute_hash L b) (replicate (nat d) (CHR ''0''))")
    case True
    with eq have "r = (compute_hash L b, b\<lparr>hash := Some (compute_hash L b)\<rparr>)"
      by (simp add: Let_def)
    then show ?thesis by simp
  next
    case False
    with eq have "f L d (b\<lparr>nonce := nonce b + 1\<rparr>) = Some r"
      by (simp add: Let_def)
    from ih [OF this] show ?thesis by simp
  qed
qed

lemma add_block_mined:
  assumes ne: "chain bc \<noteq> []" and m: "mine L d (next_draft bc txs v now) = Some (h, blk)"
  shows "add_block L bc blk
       = (if hash (last (chain bc)) = None then Inr (False, bc)
          else Inr (True, bc\<lparr>chain := chain bc @ [blk]\<rparr>))"
proof -
  from mine_result [OF m] have hb: "hash blk = Some (compute_hash L blk)" by simp
  from mine_keeps_link [OF m]
  have "previous_hash blk = previous_hash (next_draft bc txs v now)" by simp
  with next_draft_link [of bc txs v now]
  have "Some (previous_hash blk) = hash (last (chain bc)) \<longleftrightarrow> hash (last (chain bc)) \<noteq> None"
    by simp
  with ne hb show ?thesis by (auto simp add: add_block_def latest_block_def)
qed


lemma pow_round_returns:
  assumes ne: "chain bc \<noteq> []" and "nodes = [] \<or> pow_difficulty st \<le> 0"
  shows "pow_run_round L st bc txs nodes r now el \<noteq> None"
proof (cases "nodes = []")
  case True
  then show ?thesis by (simp add: pow_run_round_def)
next
  case False
  with assms(2) have d: "pow_difficulty st \<le> 0" by simp
  have c: "py_choice r nodes = Inr (nodes ! (r mod length nodes))" using False by (simp add: py_choice_def)
  show ?thesis using False c
    by (simp add: pow_run_round_def create_next_block_supplied [OF ne] mine_nonpos [OF d]
        split: sum.splits prod.splits)
qed



subsection \<open>Constructors and the instances used below\<close>

lemma pos_init_wf: "pos_init stakes af = Inr st \<Longrightarrow> pos_wf st"
  by (auto simp add: pos_wf_def pos_init_def list_all_iff split: if_splits)

lemma two_stakes_init:
  "pos_init [(''v0'', FNum 10), (''v1'', FNum 20)] (FNum (1 / 10)) = Inr two_stakes"
  by (simp add: pos_init_def two_stakes_def fl_ge_zero_def)

lemma two_stakes_facts:
  "pos_wf two_stakes" "validators two_stakes \<noteq> []" "pos_selectable plain_lib two_stakes"
proof -
  show "pos_wf two_stakes" by (rule pos_init_wf [OF two_stakes_init])
  show "validators two_stakes \<noteq> []" by (simp add: two_stakes_def)
  show "pos_selectable plain_lib two_stakes"
    by (simp add: pos_selectable_def two_stakes_def plain_lib_def fl_is_zero_def
        fl_le_zero_def fl_isfinite_def Let_def)
qed

lemma pbft_init_node_list:
  "pbft_init ns f ps = Inr st \<Longrightarrow> node_list st = ns \<and> ns \<noteq> [] \<and> byzantine_count st = f"
  by (auto simp add: pbft_init_def py_sample_def Let_def split: if_splits sum.splits)

lemma py_sample_ok:
  "0 \<le> k \<Longrightarrow> k \<le> int (length xs) \<Longrightarrow> py_sample ps xs k = Inr (map (\<lambda>i. xs ! i) ps)"
  by (simp add: py_sample_def)


lemma three_delegates_eval:
  "three_delegates =
     \<lparr>candidates = [(''d0'', \<lparr>d_address = ''d0'', votes = 300, blocks_produced = 0\<rparr>),
                    (''d1'', \<lparr>d_address = ''d1'', votes = 200, blocks_produced = 0\<rparr>),
                    (''d2'', \<lparr>d_address = ''d2'', votes = 100, blocks_produced = 0\<rparr>)],
      num_delegates = 3, active_delegates = [''d2'', ''d0'', ''d1''], round_index = 0\<rparr>"
  by (simp add: three_delegates_def dpos_init_def dpos_elect_delegates_def py_take_def
      py_shuffle_def Let_def)

lemma unhashed_chain_facts:
  "chain unhashed_chain \<noteq> []" "hash (last (chain unhashed_chain)) = None"
  by (simp_all add: unhashed_chain_def)

lemma dpos_rejected_round:
  assumes ne: "chain bc \<noteq> []" and hn: "hash (last (chain bc)) = None"
    and act: "active_delegates st \<noteq> []"
  shows "\<exists>res st' bc'. dpos_run_round L st bc txs nodes now = Inr (res, st', bc')
           \<and> \<not> success res \<and> block res \<noteq> None \<and> bc' = bc"
  using hn act
  by (simp add: dpos_run_round_def dpos_current_delegate_def create_next_block_supplied [OF ne]
      seal_alt add_block_sealed_draft [OF ne] Let_def)

lemma pos_rejected_round:
  assumes ne: "chain bc \<noteq> []" and hn: "hash (last (chain bc)) = None"
    and wf: "pos_wf st" and vs: "validators st \<noteq> []" and sel: "pos_selectable L st"
  shows "\<exists>res st' bc'. pos_run_round L st bc txs nodes r now = Inr (res, st', bc')
           \<and> \<not> success res \<and> block res \<noteq> None \<and> bc' = bc"
proof -
  let ?p = "map si_address (map snd (validators st)) ! (r mod length (validators st))"
  have p: "pos_select_validator L st r = Inr ?p" by (rule pos_select_ok [OF vs sel])
  have "?p \<in> set (map si_address (map snd (validators st)))"
    using vs by (intro nth_mem) simp
  then have "?p \<in> si_address ` snd ` set (validators st)" by auto
  from pos_wf_lookup [OF wf this]
  obtain info where info: "map_of (validators st) ?p = Some info" by blast
  show ?thesis using vs p info hn
    by (simp add: pos_run_round_def create_next_block_supplied [OF ne] seal_alt
        add_block_sealed_draft [OF ne] Let_def)
qed

lemma pow_rejected_round:
  assumes ne: "chain bc \<noteq> []" and hn: "hash (last (chain bc)) = None"
    and ns: "nodes \<noteq> []" and d: "pow_difficulty st \<le> 0"
  shows "\<exists>res bc'. pow_run_round L st bc txs nodes r now el = Some (Inr (res, bc'))
           \<and> \<not> success res \<and> block res \<noteq> None \<and> bc' = bc"
proof -
  let ?miner = "nodes ! (r mod length nodes)"
  let ?d = "next_draft bc txs (Some ?miner) now"
  have c: "py_choice r nodes = Inr ?miner" using ns by (simp add: py_choice_def)
  have m: "mine L (pow_difficulty st) ?d = Some (compute_hash L ?d, ?d\<lparr>hash := Some (compute_hash L ?d)\<rparr>)"
    by (rule mine_nonpos [OF d])
  show ?thesis using ns c hn
    by (simp add: pow_run_round_def create_next_block_supplied [OF ne] m
        add_block_mined [OF ne m])
qed


subsection \<open>Round robin\<close>

lemma no_delegates_eval:
  "no_delegates = \<lparr>candidates = [], num_delegates = 3, active_delegates = [], round_index = 0\<rparr>"
  by (simp add: no_delegates_def dpos_init_def dpos_elect_delegates_def py_take_def
      py_shuffle_def Let_def)

lemma dpos_round_step:
  assumes ne: "chain bc \<noteq> []" and act: "active_delegates st \<noteq> []"
  shows "\<exists>res st' bc'. dpos_run_round L st bc txs nodes now = Inr (res, st', bc')
           \<and> proposer res = Some (active_delegates st
                ! nat (round_index st mod int (length (active_delegates st))))
           \<and> round_index st' = round_index st + 1
           \<and> active_delegates st' = active_delegates st
           \<and> chain bc' \<noteq> []"
proof (cases "hash (last (chain bc)) = None")
  case True
  with act ne show ?thesis
    by (simp add: dpos_run_round_def dpos_current_delegate_def create_next_block_supplied [OF ne]
        seal_alt add_block_sealed_draft [OF ne] Let_def)
next
  case False
  with act ne show ?thesis
    by (simp add: dpos_run_round_def dpos_current_delegate_def create_next_block_supplied [OF ne]
        seal_alt add_block_sealed_draft [OF ne] Let_def)
qed

lemma dpos_rounds_proposers:
  assumes "chain bc \<noteq> []" and "active_delegates st \<noteq> []"
  shows "\<exists>results st' bc'. dpos_run_rounds L st bc nodes inputs = Inr (results, st', bc')
           \<and> map proposer results
               = map (\<lambda>j. Some (active_delegates st
                       ! nat ((round_index st + int j) mod int (length (active_delegates st)))))
                     [0..<length inputs]
           \<and> round_index st' = round_index st + int (length inputs)
           \<and> active_delegates st' = active_delegates st"
  using assms
proof (induction inputs arbitrary: st bc)
  case Nil
  then show ?case by simp
next
  case (Cons inp rest)
  obtain txs now where inp: "inp = (txs, now)" by (cases inp)
  from dpos_round_step [OF Cons.prems, of L txs nodes now]
  obtain res st1 bc1 where
    r: "dpos_run_round L st bc txs nodes now = Inr (res, st1, bc1)"
    and p: "proposer res = Some (active_delegates st
                ! nat (round_index st mod int (length (active_delegates st))))"
    and i: "round_index st1 = round_index st + 1"
    and a: "active_delegates st1 = active_delegates st"
    and c: "chain bc1 \<noteq> []" by blast
  from a Cons.prems have a1: "active_delegates st1 \<noteq> []" by simp
  from Cons.IH [OF c a1]
  obtain results st2 bc2 where
    rr: "dpos_run_rounds L st1 bc1 nodes rest = Inr (results, st2, bc2)"
    and pp: "map proposer results
               = map (\<lambda>j. Some (active_delegates st1
                       ! nat ((round_index st1 + int j) mod int (length (active_delegates st1)))))
                     [0..<length rest]"
    and ii: "round_index st2 = round_index st1 + int (length rest)"
    and aa: "active_delegates st2 = active_delegates st1" by blast
  have run: "dpos_run_rounds L st bc nodes (inp # rest) = Inr (res # results, st2, bc2)"
    using inp r rr by simp
  have shift: "map (\<lambda>j. Some (active_delegates st
                       ! nat ((round_index st + int j) mod int (length (active_delegates st)))))
                     [0..<length (inp # rest)]
        = Some (active_delegates st ! nat (round_index st mod int (length (active_delegates st))))
          # map (\<lambda>j. Some (active_delegates st
                       ! nat ((round_index st + 1 + int j) mod int (length (active_delegates st)))))
                     [0..<length rest]"
    by (simp add: map_upt_Suc del: upt_Suc) (simp add: algebra_simps)
  show ?case
    using run p pp i ii a aa shift by (simp del: upt_Suc)
qed

lemma round_robin_is_rotation:
  fixes xs :: "'a list"
  assumes "xs \<noteq> []"
  shows "map (\<lambda>j. xs ! nat ((i + int j) mod int (length xs))) [0..<length xs]
           = rotate (nat (i mod int (length xs))) xs"
proof (rule nth_equalityI)
  show "length (map (\<lambda>j. xs ! nat ((i + int j) mod int (length xs))) [0..<length xs])
          = length (rotate (nat (i mod int (length xs))) xs)" by simp
next
  fix j assume "j < length (map (\<lambda>j. xs ! nat ((i + int j) mod int (length xs))) [0..<length xs])"
  then have j: "j < length xs" by simp
  let ?k = "length xs"
  let ?m = "nat (i mod int ?k)"
  have k: "0 < int ?k" using assms by simp
  have m: "int ?m = i mod int ?k" using k by simp
  have "int ((?m + j) mod ?k) = (int ?m + int j) mod int ?k" by (simp add: zmod_int)
  also have "\<dots> = (i mod int ?k + int j) mod int ?k" by (simp only: m)
  also have "\<dots> = (i + int j) mod int ?k" by (simp add: mod_add_left_eq)
  finally have e: "nat ((i + int j) mod int ?k) = (?m + j) mod ?k" by linarith
  show "map (\<lambda>j. xs ! nat ((i + int j) mod int (length xs))) [0..<length xs] ! j
          = rotate (nat (i mod int (length xs))) xs ! j"
    using j e by (simp add: nth_rotate)
qed

lemma mset_rotate_eq: "mset (rotate n xs) = mset xs"
proof -
  let ?k = "n mod length xs"
  have "mset (rotate n xs) = mset (drop ?k xs) + mset (take ?k xs)"
    by (simp add: rotate_drop_take)
  also have "\<dots> = mset (take ?k xs) + mset (drop ?k xs)" by (rule add.commute)
  also have "\<dots> = mset (take ?k xs @ drop ?k xs)" by (simp only: mset_append)
  also have "\<dots> = mset xs" by (simp only: append_take_drop_id)
  finally show ?thesis .
qed


subsection \<open>The hashed string determines the nonce and the identifiers\<close>

lemma digit_char_inj: "a < 10 \<Longrightarrow> b < 10 \<Longrightarrow> digit_char a = digit_char b \<Longrightarrow> a = b"
proof -
  assume a: "a < 10" and b: "b < 10" and e: "digit_char a = digit_char b"
  from e have "of_char (digit_char a) = (of_char (digit_char b) :: nat)" by simp
  then have "(48 + a) mod 256 = (48 + b) mod 256" by (simp add: digit_char_def)
  with a b show "a = b" by simp
qed

lemma digit_char_not_minus: "a < 10 \<Longrightarrow> digit_char a \<noteq> CHR ''-''"
proof
  assume a: "a < 10" and e: "digit_char a = CHR ''-''"
  from e have "of_char (digit_char a) = (of_char (CHR ''-'') :: nat)" by simp
  then have "(48 + a) mod 256 = 45" by (simp add: digit_char_def)
  with a show False by simp
qed

lemma str_nat_nonempty: "str_nat n \<noteq> []"
  by (subst str_nat.simps) simp

lemma str_nat_length_ge2: "10 \<le> n \<Longrightarrow> 2 \<le> length (str_nat n)"
proof -
  assume "10 \<le> n"
  then have "str_nat n = str_nat (n div 10) @ [digit_char (n mod 10)]"
    by (subst str_nat.simps) simp
  moreover have "1 \<le> length (str_nat (n div 10))"
    using str_nat_nonempty [of "n div 10"] by (cases "str_nat (n div 10)") simp_all
  ultimately show ?thesis by simp
qed

lemma str_nat_inj: "str_nat n = str_nat m \<Longrightarrow> n = m"
proof (induction n arbitrary: m rule: str_nat.induct)
  case (1 n)
  show ?case
  proof (cases "n < 10")
    case True
    then have sn: "str_nat n = [digit_char n]" by (subst str_nat.simps) simp
    show ?thesis
    proof (cases "m < 10")
      case m: True
      then have "str_nat m = [digit_char m]" by (subst str_nat.simps) simp
      with sn "1.prems" have "digit_char n = digit_char m" by simp
      then show ?thesis by (rule digit_char_inj [OF True m])
    next
      case False
      then have "2 \<le> length (str_nat m)" by (simp add: str_nat_length_ge2)
      with sn "1.prems" show ?thesis by simp
    qed
  next
    case False
    then have sn: "str_nat n = str_nat (n div 10) @ [digit_char (n mod 10)]"
      by (subst str_nat.simps) simp
    show ?thesis
    proof (cases "m < 10")
      case True
      then have "str_nat m = [digit_char m]" by (subst str_nat.simps) simp
      moreover from False have "2 \<le> length (str_nat n)" by (simp add: str_nat_length_ge2)
      ultimately show ?thesis using "1.prems" by simp
    next
      case m: False
      then have sm: "str_nat m = str_nat (m div 10) @ [digit_char (m mod 10)]"
        by (subst str_nat.simps) simp
      from sn sm "1.prems"
      have e: "str_nat (n div 10) = str_nat (m div 10)" "digit_char (n mod 10) = digit_char (m mod 10)"
        by simp_all
      from "1.IH" [OF False e(1)] have "n div 10 = m div 10" .
      moreover have "n mod 10 = m mod 10"
        by (rule digit_char_inj [OF _ _ e(2)]) simp_all
      ultimately show ?thesis by (metis div_mult_mod_eq)
    qed
  qed
qed

lemma str_nat_hd_not_minus: "hd (str_nat n) \<noteq> CHR ''-''"
proof (induction n rule: str_nat.induct)
  case (1 n)
  show ?case
  proof (cases "n < 10")
    case True
    then have "str_nat n = [digit_char n]" by (subst str_nat.simps) simp
    with True show ?thesis by (simp add: digit_char_not_minus)
  next
    case False
    then have "str_nat n = str_nat (n div 10) @ [digit_char (n mod 10)]"
      by (subst str_nat.simps) simp
    with "1.IH" [OF False] str_nat_nonempty [of "n div 10"] show ?thesis by simp
  qed
qed

lemma str_int_inj: "str_int a = str_int b \<Longrightarrow> a = b"
proof -
  assume e: "str_int a = str_int b"
  have neg: "\<And>x y. x < 0 \<Longrightarrow> \<not> y < 0 \<Longrightarrow> str_int x \<noteq> str_int y"
  proof
    fix x y :: int assume "x < 0" "\<not> y < 0" "str_int x = str_int y"
    then have "CHR ''-'' # str_nat (nat (- x)) = str_nat (nat y)" by (simp add: str_int_def)
    then have "hd (str_nat (nat y)) = CHR ''-''" by (metis list.sel(1))
    with str_nat_hd_not_minus show False by blast
  qed
  show "a = b"
  proof (cases "a < 0")
    case True
    show ?thesis
    proof (cases "b < 0")
      case b: True
      with True e have "str_nat (nat (- a)) = str_nat (nat (- b))" by (simp add: str_int_def)
      then have "nat (- a) = nat (- b)" by (rule str_nat_inj)
      with True b show ?thesis by simp
    next
      case False
      with True e neg show ?thesis by blast
    qed
  next
    case False
    show ?thesis
    proof (cases "b < 0")
      case True
      with False e neg [of b a] show ?thesis by simp
    next
      case b: False
      with False e have "str_nat (nat a) = str_nat (nat b)" by (simp add: str_int_def)
      then have "nat a = nat b" by (rule str_nat_inj)
      with False b show ?thesis by simp
    qed
  qed
qed

lemma block_data_nonce:
  "block_data L (b\<lparr>nonce := n\<rparr>) = block_data L b \<longleftrightarrow> n = nonce b"
  by (auto simp add: block_data_def dest: str_int_inj)

lemma concat_map_update:
  assumes "j < length xs"
  shows "concat (map f (xs[j := x])) = concat (map f (take j xs)) @ f x @ concat (map f (drop (Suc j) xs))"
    and "concat (map f xs) = concat (map f (take j xs)) @ f (xs ! j) @ concat (map f (drop (Suc j) xs))"
proof -
  from assms have u: "xs[j := x] = take j xs @ x # drop (Suc j) xs" by (rule upd_conv_take_nth_drop)
  show "concat (map f (xs[j := x])) = concat (map f (take j xs)) @ f x @ concat (map f (drop (Suc j) xs))"
    by (simp add: u)
  from assms have "xs = take j xs @ xs ! j # drop (Suc j) xs" by (simp add: id_take_nth_drop)
  then have "concat (map f xs) = concat (map f (take j xs @ xs ! j # drop (Suc j) xs))" by simp
  then show "concat (map f xs) = concat (map f (take j xs)) @ f (xs ! j) @ concat (map f (drop (Suc j) xs))"
    by simp
qed

lemma block_data_transaction:
  assumes "j < length (transactions b)"
  shows "block_data L (b\<lparr>transactions := (transactions b)[j := tx]\<rparr>) = block_data L b
           \<longleftrightarrow> tx_ident L tx = tx_ident L (transactions b ! j)"
  by (simp add: block_data_def concat_map_update [OF assms])


subsection \<open>Validity of a chain\<close>

lemma is_valid_iff:
  "is_valid L bc \<longleftrightarrow>
     (\<forall>j. 1 \<le> j \<and> j < length (chain bc) \<longrightarrow>
        hash (chain bc ! j) = Some (compute_hash L (chain bc ! j))
        \<and> Some (previous_hash (chain bc ! j)) = hash (chain bc ! (j - 1)))"
  unfolding is_valid_def by (rule is_valid_loop_iff)

lemma is_valid_append:
  assumes ne: "chain bc \<noteq> []" and v: "is_valid L bc"
    and a: "add_block L bc b = Inr (True, bc')"
  shows "is_valid L bc'"
proof -
  let ?bs = "chain bc"
  from a ne have acc: "Some (previous_hash b) = hash (last ?bs)" "hash b = Some (compute_hash L b)"
    and bc': "bc' = bc\<lparr>chain := ?bs @ [b]\<rparr>"
    by (auto simp add: add_block_accept_iff [OF ne] split: if_splits)
  have "\<forall>j. 1 \<le> j \<and> j < length (?bs @ [b]) \<longrightarrow>
        hash ((?bs @ [b]) ! j) = Some (compute_hash L ((?bs @ [b]) ! j))
        \<and> Some (previous_hash ((?bs @ [b]) ! j)) = hash ((?bs @ [b]) ! (j - 1))"
  proof (intro allI impI)
    fix j assume j: "1 \<le> j \<and> j < length (?bs @ [b])"
    show "hash ((?bs @ [b]) ! j) = Some (compute_hash L ((?bs @ [b]) ! j))
        \<and> Some (previous_hash ((?bs @ [b]) ! j)) = hash ((?bs @ [b]) ! (j - 1))"
    proof (cases "j < length ?bs")
      case True
      then have jm: "j - 1 < length ?bs" by simp
      have e: "(?bs @ [b]) ! j = ?bs ! j" "(?bs @ [b]) ! (j - 1) = ?bs ! (j - 1)"
        using True jm by (simp_all add: nth_append)
      from v j True have "hash (?bs ! j) = Some (compute_hash L (?bs ! j))
        \<and> Some (previous_hash (?bs ! j)) = hash (?bs ! (j - 1))"
        by (simp add: is_valid_iff)
      then show ?thesis by (simp only: e)
    next
      case False
      with j have jl: "j = length ?bs" by simp
      have "(?bs @ [b]) ! (j - 1) = last ?bs"
        using ne jl by (simp add: nth_append last_conv_nth)
      with jl acc show ?thesis by simp
    qed
  qed
  then show ?thesis by (simp add: is_valid_iff bc')
qed

lemma tamper_valid_iff:
  assumes v: "is_valid L bc" and i: "i < length (chain bc)"
    and h: "hash b' = hash (chain bc ! i)"
    and p: "previous_hash b' = previous_hash (chain bc ! i)"
  shows "is_valid L (bc\<lparr>chain := (chain bc)[i := b']\<rparr>)
           \<longleftrightarrow> i = 0 \<or> compute_hash L b' = compute_hash L (chain bc ! i)"
proof -
  let ?bs = "chain bc"
  let ?bs' = "?bs[i := b']"
  have hh: "hash (?bs' ! j) = hash (?bs ! j)" if "j < length ?bs" for j
    using that h by (cases "j = i") simp_all
  have pp: "previous_hash (?bs' ! j) = previous_hash (?bs ! j)" if "j < length ?bs" for j
    using that p by (cases "j = i") simp_all
  have cc: "compute_hash L (?bs' ! j) = compute_hash L (?bs ! j)" if "j < length ?bs" "j \<noteq> i" for j
    using that by simp
  have ci: "compute_hash L (?bs' ! i) = compute_hash L b'" using i by simp
  have ok: "hash (?bs ! j) = Some (compute_hash L (?bs ! j))
        \<and> Some (previous_hash (?bs ! j)) = hash (?bs ! (j - 1))" if "1 \<le> j" "j < length ?bs" for j
    using that v by (simp add: is_valid_iff)
  show ?thesis
  proof
    assume v': "is_valid L (bc\<lparr>chain := ?bs'\<rparr>)"
    show "i = 0 \<or> compute_hash L b' = compute_hash L (?bs ! i)"
    proof (cases "i = 0")
      case True then show ?thesis by simp
    next
      case False
      then have i1: "1 \<le> i" by simp
      from v' have "\<forall>j. 1 \<le> j \<and> j < length ?bs' \<longrightarrow>
          hash (?bs' ! j) = Some (compute_hash L (?bs' ! j))
          \<and> Some (previous_hash (?bs' ! j)) = hash (?bs' ! (j - 1))"
        by (simp add: is_valid_iff)
      moreover have "1 \<le> i \<and> i < length ?bs'" using i i1 by simp
      ultimately have "hash (?bs' ! i) = Some (compute_hash L (?bs' ! i))" by blast
      with hh [OF i] ci have "hash (?bs ! i) = Some (compute_hash L b')" by simp
      with ok [OF i1 i] show ?thesis by simp
    qed
  next
    assume c: "i = 0 \<or> compute_hash L b' = compute_hash L (?bs ! i)"
    have "\<forall>j. 1 \<le> j \<and> j < length ?bs' \<longrightarrow>
        hash (?bs' ! j) = Some (compute_hash L (?bs' ! j))
        \<and> Some (previous_hash (?bs' ! j)) = hash (?bs' ! (j - 1))"
    proof (intro allI impI)
      fix j assume j: "1 \<le> j \<and> j < length ?bs'"
      then have j1: "1 \<le> j" and jl: "j < length ?bs" by simp_all
      from jl have jm: "j - 1 < length ?bs" by linarith
      have ch: "compute_hash L (?bs' ! j) = compute_hash L (?bs ! j)"
      proof (cases "j = i")
        case True
        with c j1 ci show ?thesis by auto
      next
        case False
        with cc [OF jl] show ?thesis by blast
      qed
      from ok [OF j1 jl] hh [OF jl] hh [OF jm] pp [OF jl] ch
      show "hash (?bs' ! j) = Some (compute_hash L (?bs' ! j))
        \<and> Some (previous_hash (?bs' ! j)) = hash (?bs' ! (j - 1))"
        by simp
    qed
    then show "is_valid L (bc\<lparr>chain := ?bs'\<rparr>)" by (simp add: is_valid_iff)
  qed
qed

lemma tamper_nonce_valid_iff:
  assumes "is_valid L bc" and "i < length (chain bc)"
  shows "is_valid L (tamper_nonce bc i n)
           \<longleftrightarrow> i = 0 \<or> compute_hash L ((chain bc ! i)\<lparr>nonce := n\<rparr>) = compute_hash L (chain bc ! i)"
  unfolding tamper_nonce_def by (rule tamper_valid_iff [OF assms]) simp_all

lemma tamper_transaction_valid_iff:
  assumes "is_valid L bc" and "i < length (chain bc)"
  shows "is_valid L (tamper_transaction bc i j tx)
           \<longleftrightarrow> i = 0 \<or> compute_hash L ((chain bc ! i)\<lparr>transactions := (transactions (chain bc ! i))[j := tx]\<rparr>)
                            = compute_hash L (chain bc ! i)"
  unfolding tamper_transaction_def by (rule tamper_valid_iff [OF assms]) simp_all


lemma unit_chain_valid: "is_valid L unit_chain"
  by (simp add: is_valid_iff unit_chain_chain)

lemma two_chain_append: "add_block plain_lib unit_chain first_block = Inr (True, two_chain)"
proof -
  have ne: "chain unit_chain \<noteq> []" by (simp add: unit_chain_chain)
  have "hash (last (chain unit_chain)) \<noteq> None" by (simp add: unit_chain_chain genesis_hash)
  then show ?thesis
    unfolding first_block_def two_chain_def
    by (simp add: add_block_sealed_draft [OF ne])
qed

lemma two_chain_valid: "is_valid plain_lib two_chain"
  by (rule is_valid_append [OF _ unit_chain_valid two_chain_append]) (simp add: unit_chain_chain)

lemma two_chain_blocks:
  "chain two_chain = [genesis plain_lib, first_block]" "length (chain two_chain) = 2"
  "chain two_chain ! 0 = genesis plain_lib" "chain two_chain ! 1 = first_block"
  by (simp_all add: two_chain_def unit_chain_chain)

lemma first_block_fields: "nonce first_block = 0" "transactions first_block = [pay_tx]"
  by (simp_all add: first_block_def seal_fields next_draft_def)

lemma pay_tx_ident:
  "tx_ident plain_lib (pay_tx\<lparr>amount := a\<rparr>) = tx_ident plain_lib pay_tx"
  by (simp add: pay_tx_def tx_post_init_def tx_ident_def tx_compute_hash_def plain_lib_def)


subsection \<open>The phases of a Byzantine round\<close>

lemma deliver_prepares_eq:
  "deliver_prepares msgs st =
     st\<lparr>pbft_nodes := map (\<lambda>(a, n). (a, n\<lparr>prepares_received :=
                               prepares_received n \<union> set (map msg_sender msgs)\<rparr>))
                          (pbft_nodes st)\<rparr>"
proof (induction msgs arbitrary: st)
  case Nil
  have "map (\<lambda>(a, n). (a, n)) (pbft_nodes st) = pbft_nodes st" by (induction "pbft_nodes st") auto
  then show ?case by (simp add: deliver_prepares_def)
next
  case (Cons m ms)
  have "deliver_prepares (m # ms) st
          = deliver_prepares ms
              (st\<lparr>pbft_nodes := map (\<lambda>(a, n). (a, n\<lparr>prepares_received :=
                                        insert (msg_sender m) (prepares_received n)\<rparr>))
                                   (pbft_nodes st)\<rparr>)"
    by (simp add: deliver_prepares_def)
  also have "\<dots> = st\<lparr>pbft_nodes := map (\<lambda>(a, n). (a, n\<lparr>prepares_received :=
                               prepares_received n \<union> set (map msg_sender (m # ms))\<rparr>))
                          (pbft_nodes st)\<rparr>"
    by (simp add: Cons.IH case_prod_beta o_def)
  finally show ?case .
qed

lemma deliver_commits_eq:
  "deliver_commits msgs st =
     st\<lparr>pbft_nodes := map (\<lambda>(a, n). (a, n\<lparr>commits_received :=
                               commits_received n \<union> set (map msg_sender msgs)\<rparr>))
                          (pbft_nodes st)\<rparr>"
proof (induction msgs arbitrary: st)
  case Nil
  have "map (\<lambda>(a, n). (a, n)) (pbft_nodes st) = pbft_nodes st" by (induction "pbft_nodes st") auto
  then show ?case by (simp add: deliver_commits_def)
next
  case (Cons m ms)
  have "deliver_commits (m # ms) st
          = deliver_commits ms
              (st\<lparr>pbft_nodes := map (\<lambda>(a, n). (a, n\<lparr>commits_received :=
                                        insert (msg_sender m) (commits_received n)\<rparr>))
                                   (pbft_nodes st)\<rparr>)"
    by (simp add: deliver_commits_def)
  also have "\<dots> = st\<lparr>pbft_nodes := map (\<lambda>(a, n). (a, n\<lparr>commits_received :=
                               commits_received n \<union> set (map msg_sender (m # ms))\<rparr>))
                          (pbft_nodes st)\<rparr>"
    by (simp add: Cons.IH case_prod_beta o_def)
  finally show ?case .
qed

lemma config_reset: "pbft_config (reset_round st) = pbft_config st"
  by (simp add: pbft_config_def reset_round_def case_prod_beta o_def)

lemma config_deliver_prepares: "pbft_config (deliver_prepares msgs st) = pbft_config st"
  by (simp add: pbft_config_def deliver_prepares_eq case_prod_beta o_def)

lemma config_deliver_commits: "pbft_config (deliver_commits msgs st) = pbft_config st"
  by (simp add: pbft_config_def deliver_commits_eq case_prod_beta o_def)

lemma config_phase_commit: "pbft_config (snd (phase_commit st bh)) = pbft_config st"
  by (simp add: pbft_config_def phase_commit_def Let_def case_prod_beta o_def)

lemma config_view: "pbft_config (st\<lparr>view := v\<rparr>) = pbft_config st"
  by (simp add: pbft_config_def)

lemma pbft_round_config:
  assumes "pbft_run_round L st bc txs nodes now = Inr (res, st', bc')"
  shows "pbft_config st' = pbft_config st"
proof -
  let ?st1 = "reset_round st"
  let ?leader = "node_list ?st1 ! nat (view ?st1 mod int (length (node_list ?st1)))"
  have c4: "pbft_config (deliver_commits cm (snd (phase_commit (deliver_prepares pm ?st1) bh))\<lparr>view := v\<rparr>)
              = pbft_config st" for cm pm bh v
    by (simp add: config_view config_deliver_commits config_phase_commit config_deliver_prepares
        config_reset)
  from assms show ?thesis
    by (auto simp add: pbft_run_round_def Let_def c4 [simplified]
        split: if_splits sum.splits prod.splits)
      (metis c4 snd_conv)+
qed


lemma honest_addresses_config:
  "honest_addresses st
     = map (\<lambda>t. fst (snd t)) (filter (\<lambda>t. \<not> snd (snd t)) (snd (snd (pbft_config st))))"
  by (simp add: honest_addresses_def pbft_config_def filter_map o_def case_prod_beta)

lemma addresses_config:
  "map address (map snd (pbft_nodes st)) = map (\<lambda>t. fst (snd t)) (snd (snd (pbft_config st)))"
  by (simp add: pbft_config_def o_def case_prod_beta)

lemma pbft_live_config:
  assumes "pbft_config st' = pbft_config st"
  shows "pbft_live st' = pbft_live st"
proof -
  have "node_list st' = node_list st" "byzantine_count st' = byzantine_count st"
    using assms by (simp_all add: pbft_config_def)
  then show ?thesis
    unfolding pbft_live_def quorum_def honest_addresses_config addresses_config assms by simp
qed

lemma pbft_reachable_config:
  "pbft_reachable L st0 st \<Longrightarrow> pbft_config st = pbft_config st0"
  by (induction rule: pbft_reachable.induct) (auto dest: pbft_round_config)

lemma pbft_live_round:
  assumes live: "pbft_live st" and ne: "chain bc \<noteq> []"
    and hn: "hash (last (chain bc)) \<noteq> None"
  shows "\<exists>res st' bc' b. pbft_run_round L st bc txs nodes now = Inr (res, st', bc')
           \<and> success res \<and> rounds res = 3 \<and> block res = Some b
           \<and> bc' = bc\<lparr>chain := chain bc @ [b]\<rparr>
           \<and> committed_count st' = int (length (honest_addresses st))"
proof -
  let ?N = "map snd (pbft_nodes st)"
  let ?A = "honest_addresses st"
  let ?st1 = "reset_round st"
  let ?leader = "node_list ?st1 ! nat (view ?st1 mod int (length (node_list ?st1)))"
  let ?bh = "compute_hash L (next_draft bc txs (Some ?leader) now)"
  from live have nl: "node_list st \<noteq> []" and d: "distinct (map address ?N)"
    and q: "quorum st \<le> int (length ?A)" by (simp_all add: pbft_live_def)
  have dA: "distinct ?A" unfolding honest_addresses_def using d by (rule distinct_map_filter)
  then have cA: "card (set ?A) = length ?A" by (rule distinct_card)
  have nl1: "node_list ?st1 \<noteq> []" using nl by (simp add: reset_round_def)
  have q1: "quorum ?st1 = quorum st" by (simp add: quorum_def reset_round_def)
  \<comment> \<open>phase 2: every honest node sends PREPARE, every node receives them all\<close>
  let ?pm = "phase_prepare ?st1 ?bh"
  have pm: "map msg_sender ?pm = ?A"
    by (simp add: phase_prepare_def reset_round_def honest_addresses_def filter_map o_def
        case_prod_beta)
  let ?st2 = "deliver_prepares ?pm ?st1"
  have n2: "pbft_nodes ?st2
      = map (\<lambda>(a, n). (a, n\<lparr>prepares_received := set ?A, commits_received := {},
                                prepared := False, committed := False\<rparr>)) (pbft_nodes st)"
    by (simp add: deliver_prepares_eq pm) (simp add: reset_round_def case_prod_beta o_def)
  have q2: "quorum ?st2 = quorum st" by (simp add: quorum_def deliver_prepares_eq reset_round_def)
  have v2: "view ?st2 = view st" by (simp add: deliver_prepares_eq reset_round_def)
  \<comment> \<open>phase 3: every honest node has a quorum of PREPAREs and sends COMMIT\<close>
  have ready: "quorum ?st2 \<le> int (card (set ?A))" using q q2 cA by simp
  obtain cm st3 where pc: "phase_commit ?st2 ?bh = (cm, st3)" by (cases "phase_commit ?st2 ?bh")
  have cm: "map msg_sender cm = ?A"
    using pc ready
    by (auto simp add: phase_commit_def Let_def n2 honest_addresses_def filter_map o_def
        case_prod_beta)
  have n3: "pbft_nodes st3
      = map (\<lambda>(a, n). (a, if \<not> is_byzantine n
                            then n\<lparr>prepares_received := set ?A, commits_received := {},
                                   prepared := True, committed := False\<rparr>
                            else n\<lparr>prepares_received := set ?A, commits_received := {},
                                   prepared := False, committed := False\<rparr>)) (pbft_nodes st)"
    using pc ready
    by (auto simp add: phase_commit_def Let_def n2 case_prod_beta o_def)
  have b3: "byzantine_count st3 = byzantine_count st"
    using pc by (auto simp add: phase_commit_def Let_def deliver_prepares_eq reset_round_def)
  let ?st4 = "deliver_commits cm st3"
  have n4: "map snd (pbft_nodes ?st4)
      = map (\<lambda>n. if \<not> is_byzantine n
                   then n\<lparr>prepares_received := set ?A, commits_received := set ?A,
                          prepared := True, committed := False\<rparr>
                   else n\<lparr>prepares_received := set ?A, commits_received := set ?A,
                          prepared := False, committed := False\<rparr>) ?N"
    by (simp add: deliver_commits_eq cm n3 case_prod_beta o_def if_distrib cong: if_cong)
  have q4: "quorum ?st4 = quorum st" using b3 by (simp add: quorum_def deliver_commits_eq)
  have cc: "committed_count ?st4 = int (length ?A)"
    using q cA
    by (simp add: committed_count_def n4 q4 filter_map o_def honest_addresses_def
        if_distrib cong: if_cong)
  have reached: "quorum ?st4 \<le> committed_count ?st4" using cc q4 q by simp
  have cc': "committed_count (?st4\<lparr>view := view ?st4 + 1\<rparr>) = int (length ?A)"
    using cc by (simp add: committed_count_def quorum_def)
  show ?thesis
    using nl1 pc reached hn cc'
    by (simp add: pbft_run_round_def create_next_block_supplied [OF ne] seal_alt
        add_block_sealed_draft [OF ne] Let_def)
qed


subsection \<open>The constructed Byzantine instance\<close>

lemma dict_set_fresh: "k \<notin> fst ` set d \<Longrightarrow> dict_set k v d = d @ [(k, v)]"
  by (induction d) auto

lemma dict_build_distinct:
  "distinct xs \<Longrightarrow> set xs \<inter> fst ` set d = {} \<Longrightarrow>
     foldl (\<lambda>d a. dict_set a (g a) d) d xs = d @ map (\<lambda>a. (a, g a)) xs"
proof (induction xs arbitrary: d)
  case Nil
  then show ?case by simp
next
  case (Cons x xs)
  from Cons.prems have fresh: "x \<notin> fst ` set d" by auto
  have dis: "set xs \<inter> fst ` set (d @ [(x, g x)]) = {}" using Cons.prems by auto
  have dx: "distinct xs" using Cons.prems by simp
  have "foldl (\<lambda>d a. dict_set a (g a) d) (d @ [(x, g x)]) xs
                     = (d @ [(x, g x)]) @ map (\<lambda>a. (a, g a)) xs"
    by (rule Cons.IH [OF dx dis])
  then show ?case by (simp add: dict_set_fresh [OF fresh])
qed

lemma pbft_init_nodes:
  assumes "pbft_init ns f ps = Inr st" and "distinct ns"
  shows "pbft_nodes st
           = map (\<lambda>a. (a, \<lparr>address = a, is_byzantine = (a \<in> set (map (\<lambda>i. ns ! i) ps)),
                           prepares_received = {}, commits_received = {},
                           prepared = False, committed = False\<rparr>)) ns"
  using assms
  by (auto simp add: pbft_init_def py_sample_def Let_def dict_build_distinct
      split: if_splits)

lemma sample_card:
  assumes "distinct ns" and "sample_ok (length ns) k ps"
  shows "card (set (map (\<lambda>i. ns ! i) ps)) = k" and "set (map (\<lambda>i. ns ! i) ps) \<subseteq> set ns"
proof -
  from assms(2) have l: "length ps = k" and dp: "distinct ps" and b: "\<forall>i\<in>set ps. i < length ns"
    by (simp_all add: sample_ok_def list_all_iff)
  have "inj_on (\<lambda>i. ns ! i) (set ps)" using assms(1) b by (rule inj_on_nth)
  with dp have "distinct (map (\<lambda>i. ns ! i) ps)" by (simp add: distinct_map)
  then have "card (set (map (\<lambda>i. ns ! i) ps)) = length (map (\<lambda>i. ns ! i) ps)" by (rule distinct_card)
  with l show "card (set (map (\<lambda>i. ns ! i) ps)) = k" by simp
  show "set (map (\<lambda>i. ns ! i) ps) \<subseteq> set ns" using b by auto
qed

lemma honest_count:
  assumes "distinct ns" and "B \<subseteq> set ns"
  shows "length (filter (\<lambda>a. a \<notin> B) ns) = length ns - card B"
proof -
  have "length (filter (\<lambda>a. a \<notin> B) ns) = card ({a. a \<notin> B} \<inter> set ns)"
    using assms(1) by (rule distinct_length_filter)
  also have "{a. a \<notin> B} \<inter> set ns = set ns - B" by auto
  also have "card (set ns - B) = card (set ns) - card B"
    using assms(2) by (simp add: card_Diff_subset finite_subset)
  also have "card (set ns) = length ns" using assms(1) by (rule distinct_card)
  finally show ?thesis .
qed

lemma pbft_init_live:
  assumes init: "pbft_init ns f ps = Inr st" and d: "distinct ns"
    and s: "sample_ok (length ns) (nat f) ps"
  shows "pbft_live st" and "length (honest_addresses st) = length ns - nat f"
    and "quorum st = 2 * f + 1"
proof -
  let ?B = "set (map (\<lambda>i. ns ! i) ps)"
  from init have f0: "0 \<le> f" and fb: "f \<le> (int (length ns) - 1) div 3"
    by (auto simp add: pbft_init_def py_sample_def split: if_splits)
  from pbft_init_node_list [OF init]
  have nl: "node_list st = ns" "ns \<noteq> []" "byzantine_count st = f" by simp_all
  have nodes: "map snd (pbft_nodes st)
      = map (\<lambda>a. \<lparr>address = a, is_byzantine = (a \<in> ?B), prepares_received = {},
                    commits_received = {}, prepared = False, committed = False\<rparr>) ns"
    by (simp add: pbft_init_nodes [OF init d] o_def)
  have addr: "map address (map snd (pbft_nodes st)) = ns"
    by (simp add: nodes o_def)
  have hon: "honest_addresses st = filter (\<lambda>a. a \<notin> ?B) ns"
    by (simp add: honest_addresses_def nodes filter_map o_def)
  from sample_card [OF d s] honest_count [OF d, of ?B]
  have len: "length (honest_addresses st) = length ns - nat f" by (simp add: hon)
  then show "length (honest_addresses st) = length ns - nat f" .
  show q: "quorum st = 2 * f + 1" by (simp add: quorum_def nl)
  have "3 * f + 1 \<le> int (length ns)" using fb by linarith
  then have "quorum st \<le> int (length ns - nat f)" using f0 q by linarith
  with nl addr d len show "pbft_live st" by (simp add: pbft_live_def)
qed


lemma dpos_idle_round:
  "active_delegates st = [] \<Longrightarrow>
     dpos_run_round L st bc txs nodes now
       = Inr (result_default False ''No active delegates elected.'', st, bc)"
  by (simp add: dpos_run_round_def dpos_current_delegate_def)

lemma py_take_map: "map f (py_take n xs) = py_take n (map f xs)"
  by (simp add: py_take_def take_map)

lemma py_take_distinct: "distinct xs \<Longrightarrow> distinct (py_take n xs)"
  by (simp add: py_take_def)

lemma py_take_length_cong: "length xs = length ys \<Longrightarrow> length (py_take n xs) = length (py_take n ys)"
  by (simp add: py_take_def)

lemma dpos_init_active:
  "active_delegates (dpos_init vote_tally n perm)
     = py_shuffle perm
         (py_take n (map d_address
            (sort_key (\<lambda>d. - votes d)
               (map (\<lambda>x. \<lparr>d_address = fst x, votes = snd x, blocks_produced = 0\<rparr>)
                    vote_tally))))"
  by (simp add: dpos_init_def dpos_elect_delegates_def Let_def py_take_map o_def case_prod_beta)

lemma dpos_init_distinct:
  assumes d: "distinct (map fst vote_tally)"
    and s: "sample_ok (length (py_take n vote_tally)) (length (py_take n vote_tally)) perm"
  shows "distinct (active_delegates (dpos_init vote_tally n perm))"
proof -
  let ?ds = "map (\<lambda>x. \<lparr>d_address = fst x, votes = snd x, blocks_produced = 0\<rparr>) vote_tally"
  let ?sorted = "sort_key (\<lambda>d. - votes d) ?ds"
  let ?elected = "py_take n (map d_address ?sorted)"
  have "map d_address ?ds = map fst vote_tally" by (simp add: o_def)
  with d have dd: "distinct (map d_address ?ds)" by (simp only:)
  have ms: "mset (map d_address ?sorted) = mset (map d_address ?ds)"
    by (simp only: mset_map mset_sort)
  have "distinct (map d_address ?sorted)"
    using mset_eq_imp_distinct_iff [OF ms] dd by blast
  then have de: "distinct ?elected" by (rule py_take_distinct)
  have le: "length ?elected = length (py_take n vote_tally)"
    by (rule py_take_length_cong) simp
  from s le have dp: "distinct perm" and b: "\<forall>i\<in>set perm. i < length ?elected"
    by (simp_all add: sample_ok_def list_all_iff)
  have "inj_on (\<lambda>i. ?elected ! i) (set perm)" using de b by (rule inj_on_nth)
  with dp have "distinct (map (\<lambda>i. ?elected ! i) perm)" by (simp add: distinct_map)
  then show ?thesis by (simp add: dpos_init_active py_shuffle_def)
qed

lemma dpos_init_round_index: "round_index (dpos_init vote_tally n perm) = 0"
  by (simp add: dpos_init_def dpos_elect_delegates_def Let_def)


lemma dpos_round_robin_core:
  assumes "chain bc \<noteq> []" and "active_delegates st \<noteq> []"
  shows "(\<exists>res st' bc'. dpos_run_round L st bc txs nodes now = Inr (res, st', bc')
            \<and> proposer res = Some (active_delegates st
                 ! nat (round_index st mod int (length (active_delegates st))))
            \<and> round_index st' = round_index st + 1
            \<and> active_delegates st' = active_delegates st)
       \<and> (length inputs = length (active_delegates st) \<longrightarrow>
            (\<exists>results st' bc'. dpos_run_rounds L st bc nodes inputs = Inr (results, st', bc')
               \<and> map proposer results
                   = map Some (rotate (nat (round_index st mod int (length (active_delegates st))))
                                      (active_delegates st))
               \<and> mset (map proposer results) = mset (map Some (active_delegates st))
               \<and> (distinct (active_delegates st) \<longrightarrow> distinct (map proposer results))
               \<and> round_index st' = round_index st + int (length (active_delegates st))))"
proof (intro conjI impI)
  from dpos_round_step [OF assms, of L txs nodes now]
  show "\<exists>res st' bc'. dpos_run_round L st bc txs nodes now = Inr (res, st', bc')
            \<and> proposer res = Some (active_delegates st
                 ! nat (round_index st mod int (length (active_delegates st))))
            \<and> round_index st' = round_index st + 1
            \<and> active_delegates st' = active_delegates st"
    by blast
next
  let ?ds = "active_delegates st"
  let ?rot = "rotate (nat (round_index st mod int (length ?ds))) ?ds"
  assume len: "length inputs = length ?ds"
  from dpos_rounds_proposers [OF assms, of L nodes inputs]
  obtain results st' bc' where
    run: "dpos_run_rounds L st bc nodes inputs = Inr (results, st', bc')"
    and pp: "map proposer results
               = map (\<lambda>j. Some (?ds ! nat ((round_index st + int j) mod int (length ?ds))))
                     [0..<length inputs]"
    and ii: "round_index st' = round_index st + int (length inputs)" by blast
  have "map (\<lambda>j. Some (?ds ! nat ((round_index st + int j) mod int (length ?ds)))) [0..<length ?ds]
          = map Some (map (\<lambda>j. ?ds ! nat ((round_index st + int j) mod int (length ?ds)))
                          [0..<length ?ds])"
    by simp
  also have "\<dots> = map Some ?rot"
    by (simp only: round_robin_is_rotation [OF assms(2)])
  finally have eq: "map proposer results = map Some ?rot" using pp len by simp
  have ms: "mset (map proposer results) = mset (map Some ?ds)"
    by (simp add: eq mset_rotate_eq)
  have di: "distinct ?ds \<longrightarrow> distinct (map proposer results)"
    by (simp add: eq distinct_map)
  have ii': "round_index st' = round_index st + int (length ?ds)" using ii len by simp
  from run eq ms di ii'
  show "\<exists>results st' bc'. dpos_run_rounds L st bc nodes inputs = Inr (results, st', bc')
               \<and> map proposer results = map Some ?rot
               \<and> mset (map proposer results) = mset (map Some ?ds)
               \<and> (distinct ?ds \<longrightarrow> distinct (map proposer results))
               \<and> round_index st' = round_index st + int (length ?ds)"
    by blast
qed


subsection \<open>When the search of a work-based round ends\<close>











subsection \<open>Instances of the work-based and stake-based rounds\<close>














section \<open>Claims about the chain\<close>

text \<open>
  Claim C2. On a chain that holds at least its genesis block, \<open>add_block\<close> returns false
  and leaves the height unchanged whenever the block's previous hash differs from the
  latest block's hash, or the block's hash is absent, or it differs from the recomputed
  hash; in every other case it appends the block, returns true, and the height has grown
  by exactly one.
\<close>

theorem add_block_admission_gate:
  assumes "chain bc \<noteq> []"
  shows "\<exists>ok bc'. add_block L bc b = Inr (ok, bc')
           \<and> (if Some (previous_hash b) \<noteq> hash (last (chain bc))
                 \<or> hash b = None
                 \<or> hash b \<noteq> Some (compute_hash L b)
              then \<not> ok \<and> height bc' = height bc \<and> bc' = bc
              else ok \<and> height bc' = height bc + 1 \<and> chain bc' = chain bc @ [b])"
  using assms by (auto simp add: add_block_def latest_block_def height_def)


theorem add_block_admission_gate_witness:
  "chain unit_chain \<noteq> []
   \<and> (\<exists>ok bc'. add_block plain_lib unit_chain (seal plain_lib (draft_block 1)) = Inr (ok, bc')
        \<and> ok \<and> height bc' = height unit_chain + 1)"
  using add_block_admission_gate [of unit_chain plain_lib "seal plain_lib (draft_block 1)"]
  by (auto simp add: unit_chain_chain genesis_hash seal_sealed seal_fields draft_block_fields)

text \<open>
  Claim C9. \<open>add_block\<close> does not look at the index of the candidate block: whatever
  index \<open>i\<close> a block carries, once its hash is the digest of its fields and its previous
  hash is the latest block's hash, it is appended and the call returns true. The instance
  that follows appends a block of index 7 to a chain of height 1.
\<close>

theorem add_block_ignores_index:
  assumes "chain bc \<noteq> []"
    and "Some (previous_hash b) = hash (last (chain bc))"
  shows "add_block L bc (seal L (b\<lparr>index := i\<rparr>))
           = Inr (True, bc\<lparr>chain := chain bc @ [seal L (b\<lparr>index := i\<rparr>)]\<rparr>)"
  using assms by (simp add: add_block_def latest_block_def seal_sealed seal_fields)

theorem add_block_ignores_index_witness:
  "chain unit_chain \<noteq> []
   \<and> Some (previous_hash (draft_block 1)) = hash (last (chain unit_chain))
   \<and> index (seal plain_lib ((draft_block 1)\<lparr>index := 7\<rparr>)) \<noteq> height unit_chain
   \<and> add_block plain_lib unit_chain (seal plain_lib ((draft_block 1)\<lparr>index := 7\<rparr>))
       = Inr (True, unit_chain\<lparr>chain := chain unit_chain
                                   @ [seal plain_lib ((draft_block 1)\<lparr>index := 7\<rparr>)]\<rparr>)"
  using add_block_ignores_index [of unit_chain "draft_block 1" plain_lib 7]
  by (simp add: unit_chain_chain genesis_hash seal_fields draft_block_fields height_def)

section \<open>Claims about mining\<close>

text \<open>
  Claim C6. For every block and every difficulty \<open>d \<ge> 0\<close>, whenever \<open>mine\<close> returns, the
  returned hash starts with \<open>d\<close> characters 0, it is the value stored in the block's hash
  field, and it is the digest of the block as returned. For \<open>d = 0\<close> the call returns at
  the first check: the result is the digest of the block as given, and the block comes
  back with its nonce untouched.
\<close>

theorem mine_difficulty_bound:
  "(0 \<le> d \<and> mine L d b = Some (h, b') \<longrightarrow>
      nat d \<le> length h \<and> take (nat d) h = replicate (nat d) (CHR ''0'')
      \<and> hash b' = Some h \<and> h = compute_hash L b')
   \<and> mine L 0 b = Some (compute_hash L b, b\<lparr>hash := Some (compute_hash L b)\<rparr>)
   \<and> nonce (b\<lparr>hash := Some (compute_hash L b)\<rparr>) = nonce b"
proof (intro conjI impI)
  assume a: "0 \<le> d \<and> mine L d b = Some (h, b')"
  then have m: "mine L d b = Some (h, b')" by blast
  have r0: "startswith (fst (h, b')) (replicate (nat d) (CHR ''0''))
            \<and> hash (snd (h, b')) = Some (fst (h, b'))
            \<and> fst (h, b') = compute_hash L (snd (h, b'))"
    by (rule mine_result [OF m])
  have r: "prefix (replicate (nat d) (CHR ''0'')) h" "hash b' = Some h" "h = compute_hash L b'"
    using r0 unfolding startswith_def fst_conv snd_conv by blast+
  from r(1) obtain t where t: "h = replicate (nat d) (CHR ''0'') @ t"
    by (auto simp add: prefix_def)
  show "nat d \<le> length h" by (subst t) simp
  show "take (nat d) h = replicate (nat d) (CHR ''0'')" by (subst t) simp
  show "hash b' = Some h" by (rule r(2))
  show "h = compute_hash L b'" by (rule r(3))
next
  show "mine L 0 b = Some (compute_hash L b, b\<lparr>hash := Some (compute_hash L b)\<rparr>)"
    by (rule mine_zero)
next
  show "nonce (b\<lparr>hash := Some (compute_hash L b)\<rparr>) = nonce b" by simp
qed

theorem mine_difficulty_bound_witness:
  "(0::int) \<le> 1
   \<and> mine rev_lib 1 nonce7_block
       = Some (''01ba0.01'', nonce7_block\<lparr>nonce := 10, hash := Some ''01ba0.01''\<rparr>)
   \<and> take (nat 1) ''01ba0.01'' = replicate (nat 1) (CHR ''0'')
   \<and> hash (nonce7_block\<lparr>nonce := 10, hash := Some ''01ba0.01''\<rparr>) = Some ''01ba0.01''
   \<and> ''01ba0.01'' = compute_hash rev_lib (nonce7_block\<lparr>nonce := 10, hash := Some ''01ba0.01''\<rparr>)"
  using mine_difficulty_bound [of 1 rev_lib nonce7_block "''01ba0.01''"
      "nonce7_block\<lparr>nonce := 10, hash := Some ''01ba0.01''\<rparr>"] mine7
  by simp


section \<open>Claims about the rounds\<close>






text \<open>
  Claim C10. The rounds of the stake-based, delegated and Byzantine protocols ignore the
  list of node addresses: two calls that differ only in that argument (same state, chain,
  transactions, random draw and clock) return the same result, the same new protocol state
  and the same chain.
\<close>

theorem run_round_ignores_nodes:
  "pos_run_round L ps bc txs nodes r now = pos_run_round L ps bc txs nodes' r now
   \<and> dpos_run_round L ds bc txs nodes now = dpos_run_round L ds bc txs nodes' now
   \<and> pbft_run_round L pb bc txs nodes now = pbft_run_round L pb bc txs nodes' now"
  by (simp add: pos_run_round_def dpos_run_round_def pbft_run_round_def)


section \<open>Claims about the Byzantine protocol\<close>

text \<open>
  Claim C4. Constructing the protocol for \<open>n\<close> validators with Byzantine count \<open>f\<close> fails
  with the configuration error exactly when \<open>f > (n - 1) div 3\<close>; it succeeds exactly when
  \<open>0 \<le> f \<le> (n - 1) div 3\<close> (a negative count is refused by \<^verbatim>\<open>random.sample\<close>, with
  another error). With seven validators, \<open>f = 3\<close> fails and \<open>f = 2\<close> succeeds; every
  constructed instance has quorum \<open>2 f + 1\<close>, which is 5 for \<open>f = 2\<close>.
\<close>

theorem pbft_tolerance_bound:
  "(pbft_init ns f ps = Inl ConfigError \<longleftrightarrow> f > (int (length ns) - 1) div 3)
   \<and> ((\<exists>st. pbft_init ns f ps = Inr st) \<longleftrightarrow> 0 \<le> f \<and> f \<le> (int (length ns) - 1) div 3)
   \<and> (\<forall>st. pbft_init ns f ps = Inr st \<longrightarrow> byzantine_count st = f \<and> quorum st = 2 * f + 1)
   \<and> (length ns = 7 \<longrightarrow> pbft_init ns 3 ps = Inl ConfigError)
   \<and> (length ns = 7 \<longrightarrow> (\<exists>st. pbft_init ns 2 ps = Inr st \<and> quorum st = 5))"
proof (intro conjI allI impI)
  show "pbft_init ns f ps = Inl ConfigError \<longleftrightarrow> f > (int (length ns) - 1) div 3"
    by (auto simp add: pbft_init_def py_sample_def Let_def split: if_splits)
next
  show "(\<exists>st. pbft_init ns f ps = Inr st) \<longleftrightarrow> 0 \<le> f \<and> f \<le> (int (length ns) - 1) div 3"
  proof (cases "0 \<le> f \<and> f \<le> (int (length ns) - 1) div 3")
    case True
    then have "f \<le> int (length ns)" by linarith
    with True show ?thesis by (simp add: pbft_init_def py_sample_ok Let_def)
  next
    case False
    then show ?thesis by (auto simp add: pbft_init_def py_sample_def Let_def split: if_splits)
  qed
next
  fix st assume "pbft_init ns f ps = Inr st"
  then show "byzantine_count st = f" by (auto dest: pbft_init_node_list)
next
  fix st assume "pbft_init ns f ps = Inr st"
  then show "quorum st = 2 * f + 1" by (auto simp add: quorum_def dest: pbft_init_node_list)
next
  assume "length ns = 7"
  then show "pbft_init ns 3 ps = Inl ConfigError" by (simp add: pbft_init_def)
next
  assume "length ns = 7"
  then show "\<exists>st. pbft_init ns 2 ps = Inr st \<and> quorum st = 5"
    by (simp add: pbft_init_def py_sample_ok Let_def quorum_def)
qed

theorem pbft_tolerance_bound_witness:
  "length seven_nodes = 7
   \<and> pbft_init seven_nodes 3 [0, 1, 2] = Inl ConfigError
   \<and> (\<exists>st. pbft_init seven_nodes 2 [1, 4] = Inr st \<and> quorum st = 5)
   \<and> (3::int) > (int (length seven_nodes) - 1) div 3"
proof -
  have l: "length seven_nodes = 7" by (simp add: seven_nodes_def)
  from pbft_tolerance_bound [of seven_nodes 3 "[0, 1, 2]"] l
  have a: "pbft_init seven_nodes 3 [0, 1, 2] = Inl ConfigError"
    and c: "(3::int) > (int (length seven_nodes) - 1) div 3" by blast+
  from pbft_tolerance_bound [of seven_nodes 2 "[1, 4]"] l
  have b: "\<exists>st. pbft_init seven_nodes 2 [1, 4] = Inr st \<and> quorum st = 5" by blast
  from l a b c show ?thesis by blast
qed


text \<open>
  Claim C8. The claim is that a result carries a block only when it reports success. The
  rounds of the work-based, stake-based and delegated protocols put the draft block into
  the result whatever \<open>add_block\<close> answered. On a chain whose latest block was stored
  without a hash, \<open>create_next_block\<close> links the draft to the empty string, \<open>add_block\<close>
  rejects it, and the result reports failure together with the rejected block. The field
  is documented as the block that was agreed upon, and the failure paths that return
  early (no miners, no validators, no delegates, no quorum) leave it empty.
\<close>

theorem failed_round_reports_block:
  "(\<exists>res bc'. pow_run_round plain_lib easy_pow unhashed_chain [] seven_nodes 3 0 0
                 = Some (Inr (res, bc')) \<and> \<not> success res \<and> block res \<noteq> None)
   \<and> (\<exists>res st' bc'. pos_run_round plain_lib two_stakes unhashed_chain [] seven_nodes 3 0
                 = Inr (res, st', bc') \<and> \<not> success res \<and> block res \<noteq> None)
   \<and> (\<exists>res st' bc'. dpos_run_round plain_lib three_delegates unhashed_chain [] seven_nodes 0
                 = Inr (res, st', bc') \<and> \<not> success res \<and> block res \<noteq> None)"
proof (intro conjI)
  have "seven_nodes \<noteq> []" by (simp add: seven_nodes_def)
  moreover have "pow_difficulty easy_pow \<le> 0" by (simp add: easy_pow_def)
  ultimately show "\<exists>res bc'. pow_run_round plain_lib easy_pow unhashed_chain [] seven_nodes 3 0 0
                 = Some (Inr (res, bc')) \<and> \<not> success res \<and> block res \<noteq> None"
    using pow_rejected_round [OF unhashed_chain_facts, of seven_nodes easy_pow plain_lib "[]" 3 0 0]
    by blast
next
  have "validators two_stakes \<noteq> []" by (rule two_stakes_facts)
  moreover have "pos_wf two_stakes" by (rule two_stakes_facts)
  moreover have "pos_selectable plain_lib two_stakes" by (rule two_stakes_facts)
  ultimately show "\<exists>res st' bc'. pos_run_round plain_lib two_stakes unhashed_chain [] seven_nodes 3 0
                 = Inr (res, st', bc') \<and> \<not> success res \<and> block res \<noteq> None"
    using pos_rejected_round [OF unhashed_chain_facts, of two_stakes plain_lib "[]" seven_nodes 3 0]
    by blast
next
  have "active_delegates three_delegates \<noteq> []" by (simp add: three_delegates_eval)
  then show "\<exists>res st' bc'. dpos_run_round plain_lib three_delegates unhashed_chain [] seven_nodes 0
                 = Inr (res, st', bc') \<and> \<not> success res \<and> block res \<noteq> None"
    using dpos_rejected_round [OF unhashed_chain_facts, of three_delegates plain_lib "[]" seven_nodes 0]
    by blast
qed


section \<open>Claims about the delegated protocol\<close>

text \<open>
  Claim C7, amended. As stated (for every instance, the round index grows by one after
  every call) the claim fails on an instance without active delegates, as the instance
  after the theorem shows. What holds:
  \<^item> on every instance without active delegates \<open>run_round\<close> returns its failure result
    before it reaches the increment, and leaves the instance, its round index included,
    and the chain as they were;
  \<^item> on every instance with at least one active delegate and a chain that holds at least
    one block, the proposer of a round is the delegate at position
    \<open>round_index mod delegate_count\<close> of the fixed order, and the round index grows by
    exactly one whether or not the block was accepted; so \<open>k\<close> consecutive rounds over
    \<open>k\<close> delegates propose the order rotated by the starting index, which holds every
    delegate as often as the order does, and no delegate twice when the order holds none
    twice;
  \<^item> the order that \<open>dpos_init\<close> builds from a tally with distinct addresses holds no
    address twice, and its round index starts at 0.
\<close>

theorem dpos_round_robin:
  "(active_delegates st = [] \<longrightarrow>
      dpos_run_round L st bc txs nodes now
        = Inr (result_default False ''No active delegates elected.'', st, bc))
   \<and> (active_delegates st \<noteq> [] \<and> chain bc \<noteq> [] \<longrightarrow>
        (\<exists>res st' bc'. dpos_run_round L st bc txs nodes now = Inr (res, st', bc')
            \<and> proposer res = Some (active_delegates st
                 ! nat (round_index st mod int (length (active_delegates st))))
            \<and> round_index st' = round_index st + 1
            \<and> active_delegates st' = active_delegates st)
        \<and> (length inputs = length (active_delegates st) \<longrightarrow>
            (\<exists>results st' bc'. dpos_run_rounds L st bc nodes inputs = Inr (results, st', bc')
               \<and> map proposer results
                   = map Some (rotate (nat (round_index st mod int (length (active_delegates st))))
                                      (active_delegates st))
               \<and> mset (map proposer results) = mset (map Some (active_delegates st))
               \<and> (distinct (active_delegates st) \<longrightarrow> distinct (map proposer results))
               \<and> round_index st' = round_index st + int (length (active_delegates st)))))
   \<and> (distinct (map fst vote_tally)
        \<and> sample_ok (length (py_take n vote_tally)) (length (py_take n vote_tally)) perm \<longrightarrow>
        distinct (active_delegates (dpos_init vote_tally n perm))
        \<and> round_index (dpos_init vote_tally n perm) = 0)"
proof -
  have idle: "active_delegates st = [] \<longrightarrow>
      dpos_run_round L st bc txs nodes now
        = Inr (result_default False ''No active delegates elected.'', st, bc)"
    by (simp add: dpos_idle_round)
  have busy: "active_delegates st \<noteq> [] \<and> chain bc \<noteq> [] \<longrightarrow>
        (\<exists>res st' bc'. dpos_run_round L st bc txs nodes now = Inr (res, st', bc')
            \<and> proposer res = Some (active_delegates st
                 ! nat (round_index st mod int (length (active_delegates st))))
            \<and> round_index st' = round_index st + 1
            \<and> active_delegates st' = active_delegates st)
        \<and> (length inputs = length (active_delegates st) \<longrightarrow>
            (\<exists>results st' bc'. dpos_run_rounds L st bc nodes inputs = Inr (results, st', bc')
               \<and> map proposer results
                   = map Some (rotate (nat (round_index st mod int (length (active_delegates st))))
                                      (active_delegates st))
               \<and> mset (map proposer results) = mset (map Some (active_delegates st))
               \<and> (distinct (active_delegates st) \<longrightarrow> distinct (map proposer results))
               \<and> round_index st' = round_index st + int (length (active_delegates st))))"
  proof
    assume a: "active_delegates st \<noteq> [] \<and> chain bc \<noteq> []"
    then have ne: "chain bc \<noteq> []" and act: "active_delegates st \<noteq> []" by simp_all
    show "(\<exists>res st' bc'. dpos_run_round L st bc txs nodes now = Inr (res, st', bc')
            \<and> proposer res = Some (active_delegates st
                 ! nat (round_index st mod int (length (active_delegates st))))
            \<and> round_index st' = round_index st + 1
            \<and> active_delegates st' = active_delegates st)
        \<and> (length inputs = length (active_delegates st) \<longrightarrow>
            (\<exists>results st' bc'. dpos_run_rounds L st bc nodes inputs = Inr (results, st', bc')
               \<and> map proposer results
                   = map Some (rotate (nat (round_index st mod int (length (active_delegates st))))
                                      (active_delegates st))
               \<and> mset (map proposer results) = mset (map Some (active_delegates st))
               \<and> (distinct (active_delegates st) \<longrightarrow> distinct (map proposer results))
               \<and> round_index st' = round_index st + int (length (active_delegates st))))"
      by (rule dpos_round_robin_core [OF ne act])
  qed
  have built: "distinct (map fst vote_tally)
        \<and> sample_ok (length (py_take n vote_tally)) (length (py_take n vote_tally)) perm \<longrightarrow>
        distinct (active_delegates (dpos_init vote_tally n perm))
        \<and> round_index (dpos_init vote_tally n perm) = 0"
    by (simp add: dpos_init_distinct dpos_init_round_index)
  from idle busy built show ?thesis by (intro conjI)
qed

theorem dpos_round_robin_witness:
  "active_delegates no_delegates = []
   \<and> dpos_run_round plain_lib no_delegates unit_chain [] seven_nodes 0
       = Inr (result_default False ''No active delegates elected.'', no_delegates, unit_chain)
   \<and> chain unit_chain \<noteq> [] \<and> active_delegates three_delegates \<noteq> []
   \<and> length [([], 0), ([], 1), ([], 2 :: rat)] = length (active_delegates three_delegates)
   \<and> distinct (map fst [(''d0'', 300 :: rat), (''d1'', 200), (''d2'', 100)])
   \<and> sample_ok 3 3 [2, 0, 1]
   \<and> distinct (active_delegates three_delegates)
   \<and> (\<exists>results st' bc'.
         dpos_run_rounds plain_lib three_delegates unit_chain seven_nodes
            [([], 0), ([], 1), ([], 2)] = Inr (results, st', bc')
         \<and> map proposer results = [Some ''d2'', Some ''d0'', Some ''d1'']
         \<and> distinct (map proposer results)
         \<and> round_index st' = 3)"
proof -
  have idle: "active_delegates no_delegates = []" by (simp add: no_delegates_eval)
  from dpos_round_robin [of no_delegates plain_lib unit_chain "[]" seven_nodes 0] idle
  have r0: "dpos_run_round plain_lib no_delegates unit_chain [] seven_nodes 0
       = Inr (result_default False ''No active delegates elected.'', no_delegates, unit_chain)"
    by blast
  have ne: "chain unit_chain \<noteq> []" by (simp add: unit_chain_chain)
  have act: "active_delegates three_delegates \<noteq> []" by (simp add: three_delegates_eval)
  have len: "length [([], 0), ([], 1), ([], 2 :: rat)] = length (active_delegates three_delegates)"
    by (simp add: three_delegates_eval)
  have dk: "distinct (map fst [(''d0'', 300 :: rat), (''d1'', 200), (''d2'', 100)])" by simp
  have so: "sample_ok 3 3 [2, 0, 1]" by (simp add: sample_ok_def)
  have so': "sample_ok (length (py_take 3 [(''d0'', 300 :: rat), (''d1'', 200), (''d2'', 100)]))
                       (length (py_take 3 [(''d0'', 300 :: rat), (''d1'', 200), (''d2'', 100)]))
                       [2, 0, 1]"
    by (simp add: py_take_def sample_ok_def)
  note t = dpos_round_robin [of three_delegates plain_lib unit_chain "[]" seven_nodes 0
      "[([], 0), ([], 1), ([], 2)]" "[(''d0'', 300), (''d1'', 200), (''d2'', 100)]" 3 "[2, 0, 1]"]
  from t dk so' have di: "distinct (active_delegates three_delegates)"
    by (simp add: three_delegates_def)
  from t ne act len di
  obtain results st' bc' where
    "dpos_run_rounds plain_lib three_delegates unit_chain seven_nodes
        [([], 0), ([], 1), ([], 2)] = Inr (results, st', bc')"
    "map proposer results
       = map Some (rotate (nat (round_index three_delegates
                                 mod int (length (active_delegates three_delegates))))
                          (active_delegates three_delegates))"
    "distinct (map proposer results)"
    "round_index st' = round_index three_delegates
                         + int (length (active_delegates three_delegates))"
    by blast
  then have "\<exists>results st' bc'.
         dpos_run_rounds plain_lib three_delegates unit_chain seven_nodes
            [([], 0), ([], 1), ([], 2)] = Inr (results, st', bc')
         \<and> map proposer results = [Some ''d2'', Some ''d0'', Some ''d1'']
         \<and> distinct (map proposer results)
         \<and> round_index st' = 3"
    by (simp add: three_delegates_eval)
  with idle r0 ne act len dk so di show ?thesis by blast
qed

theorem dpos_round_index_counterexample:
  "active_delegates no_delegates = []
   \<and> dpos_run_round plain_lib no_delegates unit_chain [] seven_nodes 0
       = Inr (result_default False ''No active delegates elected.'', no_delegates, unit_chain)"
  by (simp add: no_delegates_eval dpos_run_round_def dpos_current_delegate_def)


section \<open>Claims about chain validity\<close>

text \<open>
  Claim C3, amended. As stated the claim fails: \<open>is_valid\<close> starts its loop at index 1
  and never recomputes the hash of the genesis block, and the block hash covers each
  transaction through its stored identifier only, so overwriting the nonce of block 0, or
  the amount of a transaction whose identifier is kept, leaves \<open>is_valid\<close> true, as the
  instance after the theorem shows. What holds on every chain on which \<open>is_valid\<close> is
  true and which holds at least one block: the chain is still valid after any block that
  \<open>add_block\<close> accepts; and overwriting, in a block at an index \<open>i \<ge> 1\<close>, the nonce by a
  different value, or a transaction by one with a different identifier, changes the string
  that is hashed, and \<open>is_valid\<close> is then true exactly if SHA-256 gives the old and the
  new string the same digest: without such a collision it returns false.
\<close>

theorem chain_validity_monotonic:
  assumes "is_valid L bc" and "chain bc \<noteq> []"
  shows "(\<forall>b bc'. add_block L bc b = Inr (True, bc') \<longrightarrow> is_valid L bc')
       \<and> (1 \<le> i \<and> i < length (chain bc) \<and> n \<noteq> nonce (chain bc ! i) \<longrightarrow>
            block_data L ((chain bc ! i)\<lparr>nonce := n\<rparr>) \<noteq> block_data L (chain bc ! i)
            \<and> (is_valid L (tamper_nonce bc i n) \<longleftrightarrow>
                 sha256_hex L (block_data L ((chain bc ! i)\<lparr>nonce := n\<rparr>))
                   = sha256_hex L (block_data L (chain bc ! i))))
       \<and> (1 \<le> i \<and> i < length (chain bc) \<and> j < length (transactions (chain bc ! i))
            \<and> tx_ident L tx \<noteq> tx_ident L (transactions (chain bc ! i) ! j) \<longrightarrow>
            block_data L ((chain bc ! i)\<lparr>transactions := (transactions (chain bc ! i))[j := tx]\<rparr>)
              \<noteq> block_data L (chain bc ! i)
            \<and> (is_valid L (tamper_transaction bc i j tx) \<longleftrightarrow>
                 sha256_hex L (block_data L
                     ((chain bc ! i)\<lparr>transactions := (transactions (chain bc ! i))[j := tx]\<rparr>))
                   = sha256_hex L (block_data L (chain bc ! i))))"
proof (intro conjI allI impI)
  fix b bc' assume "add_block L bc b = Inr (True, bc')"
  then show "is_valid L bc'" by (rule is_valid_append [OF assms(2) assms(1)])
next
  assume a: "1 \<le> i \<and> i < length (chain bc) \<and> n \<noteq> nonce (chain bc ! i)"
  then show "block_data L ((chain bc ! i)\<lparr>nonce := n\<rparr>) \<noteq> block_data L (chain bc ! i)"
    by (simp add: block_data_nonce)
next
  assume a: "1 \<le> i \<and> i < length (chain bc) \<and> n \<noteq> nonce (chain bc ! i)"
  then have i: "i < length (chain bc)" and i0: "i \<noteq> 0" by simp_all
  from tamper_nonce_valid_iff [OF assms(1) i, of n] i0
  show "is_valid L (tamper_nonce bc i n) \<longleftrightarrow>
                 sha256_hex L (block_data L ((chain bc ! i)\<lparr>nonce := n\<rparr>))
                   = sha256_hex L (block_data L (chain bc ! i))"
    by (simp add: compute_hash_def)
next
  assume a: "1 \<le> i \<and> i < length (chain bc) \<and> j < length (transactions (chain bc ! i))
            \<and> tx_ident L tx \<noteq> tx_ident L (transactions (chain bc ! i) ! j)"
  then have j: "j < length (transactions (chain bc ! i))" by simp
  from a show "block_data L ((chain bc ! i)\<lparr>transactions := (transactions (chain bc ! i))[j := tx]\<rparr>)
              \<noteq> block_data L (chain bc ! i)"
    by (simp add: block_data_transaction [OF j])
next
  assume a: "1 \<le> i \<and> i < length (chain bc) \<and> j < length (transactions (chain bc ! i))
            \<and> tx_ident L tx \<noteq> tx_ident L (transactions (chain bc ! i) ! j)"
  then have i: "i < length (chain bc)" and i0: "i \<noteq> 0" by simp_all
  from tamper_transaction_valid_iff [OF assms(1) i, of j tx] i0
  show "is_valid L (tamper_transaction bc i j tx) \<longleftrightarrow>
                 sha256_hex L (block_data L
                     ((chain bc ! i)\<lparr>transactions := (transactions (chain bc ! i))[j := tx]\<rparr>))
                   = sha256_hex L (block_data L (chain bc ! i))"
    by (simp add: compute_hash_def)
qed

theorem chain_validity_monotonic_witness:
  "is_valid plain_lib unit_chain \<and> chain unit_chain \<noteq> []
   \<and> add_block plain_lib unit_chain first_block = Inr (True, two_chain)
   \<and> is_valid plain_lib two_chain \<and> chain two_chain \<noteq> []
   \<and> (1::nat) \<le> 1 \<and> 1 < length (chain two_chain) \<and> 5 \<noteq> nonce (chain two_chain ! 1)
   \<and> \<not> is_valid plain_lib (tamper_nonce two_chain 1 5)
   \<and> 0 < length (transactions (chain two_chain ! 1))
   \<and> tx_ident plain_lib (pay_tx\<lparr>tx_id := Some ''x''\<rparr>)
        \<noteq> tx_ident plain_lib (transactions (chain two_chain ! 1) ! 0)
   \<and> \<not> is_valid plain_lib (tamper_transaction two_chain 1 0 (pay_tx\<lparr>tx_id := Some ''x''\<rparr>))"
proof -
  have v1: "is_valid plain_lib unit_chain" by (rule unit_chain_valid)
  have n1: "chain unit_chain \<noteq> []" by (simp add: unit_chain_chain)
  from chain_validity_monotonic [OF v1 n1, of 0 0 0 pay_tx] two_chain_append
  have v2: "is_valid plain_lib two_chain" by blast
  have n2: "chain two_chain \<noteq> []" by (simp add: two_chain_blocks)
  have h1: "(1::nat) \<le> 1 \<and> 1 < length (chain two_chain) \<and> 5 \<noteq> nonce (chain two_chain ! 1)"
    by (simp add: two_chain_blocks first_block_fields)
  have idn: "tx_ident plain_lib (pay_tx\<lparr>tx_id := Some ''x''\<rparr>)
        \<noteq> tx_ident plain_lib (transactions (chain two_chain ! 1) ! 0)"
    by (simp add: two_chain_blocks first_block_fields pay_tx_def tx_post_init_def tx_ident_def
        tx_compute_hash_def plain_lib_def)
  have h2: "(1::nat) \<le> 1 \<and> 1 < length (chain two_chain)
            \<and> 0 < length (transactions (chain two_chain ! 1))
            \<and> tx_ident plain_lib (pay_tx\<lparr>tx_id := Some ''x''\<rparr>)
                 \<noteq> tx_ident plain_lib (transactions (chain two_chain ! 1) ! 0)"
    using idn by (simp add: two_chain_blocks first_block_fields)
  have id: "sha256_hex plain_lib = (\<lambda>s. s)" by (simp add: plain_lib_def)
  note t = chain_validity_monotonic [OF v2 n2, of 1 5 0 "pay_tx\<lparr>tx_id := Some ''x''\<rparr>"]
  from t h1 have a: "\<not> is_valid plain_lib (tamper_nonce two_chain 1 5)"
    by (simp add: id)
  from t h2 have b: "\<not> is_valid plain_lib (tamper_transaction two_chain 1 0 (pay_tx\<lparr>tx_id := Some ''x''\<rparr>))"
    by (simp add: id)
  from v1 n1 two_chain_append v2 n2 h1 a h2 b show ?thesis by blast
qed

theorem tamper_undetected_counterexample:
  "add_block plain_lib unit_chain first_block = Inr (True, two_chain)
   \<and> is_valid plain_lib two_chain
   \<and> nonce (chain two_chain ! 0) \<noteq> 99
   \<and> is_valid plain_lib (tamper_nonce two_chain 0 99)
   \<and> transactions (chain two_chain ! 1) ! 0 \<noteq> pay_tx\<lparr>amount := 500\<rparr>
   \<and> is_valid plain_lib (tamper_transaction two_chain 1 0 (pay_tx\<lparr>amount := 500\<rparr>))"
proof -
  have l0: "0 < length (chain two_chain)" and l1: "1 < length (chain two_chain)"
    by (simp_all add: two_chain_blocks)
  have a: "nonce (chain two_chain ! 0) \<noteq> 99"
    by (simp add: two_chain_blocks genesis_def Let_def)
  have b: "is_valid plain_lib (tamper_nonce two_chain 0 99)"
    by (simp add: tamper_nonce_valid_iff [OF two_chain_valid l0])
  have c: "transactions (chain two_chain ! 1) ! 0 \<noteq> pay_tx\<lparr>amount := 500\<rparr>"
    by (simp add: two_chain_blocks first_block_fields pay_tx_def tx_post_init_def)
  have "block_data plain_lib (first_block\<lparr>transactions := [pay_tx\<lparr>amount := 500\<rparr>]\<rparr>)
        = block_data plain_lib first_block"
    by (simp add: block_data_def first_block_fields pay_tx_ident)
  with tamper_transaction_valid_iff [OF two_chain_valid l1, of 0 "pay_tx\<lparr>amount := 500\<rparr>"]
  have d: "is_valid plain_lib (tamper_transaction two_chain 1 0 (pay_tx\<lparr>amount := 500\<rparr>))"
    by (simp add: compute_hash_def two_chain_blocks first_block_fields)
  from two_chain_append two_chain_valid a b c d show ?thesis by blast
qed


section \<open>Claims about Byzantine liveness\<close>

text \<open>
  Claim C5. Take an instance constructed for seven distinct validators with two Byzantine
  nodes (the two positions drawn by \<^verbatim>\<open>random.sample\<close>), in any state that earlier rounds
  have left it in. Every call to \<open>run_round\<close> on a chain whose latest block has a hash
  returns, reports success with \<open>rounds = 3\<close>, and has appended the block it reports: the
  quorum is 5, the five honest validators send PREPARE and COMMIT, and all five count as
  committed.
\<close>

theorem pbft_liveness_under_bound:
  assumes "pbft_init ns 2 ps = Inr st0" and "length ns = 7" and "distinct ns"
    and "sample_ok 7 2 ps"
    and "pbft_reachable L st0 st"
    and "chain bc \<noteq> []" and "hash (last (chain bc)) \<noteq> None"
  shows "\<exists>res st' bc' b. pbft_run_round L st bc txs nodes now = Inr (res, st', bc')
           \<and> success res \<and> rounds res = 3 \<and> block res = Some b
           \<and> bc' = bc\<lparr>chain := chain bc @ [b]\<rparr>
           \<and> quorum st = 5 \<and> length (honest_addresses st) = 5
           \<and> committed_count st' = 5"
proof -
  have s: "sample_ok (length ns) (nat 2) ps" using assms(2,4) by simp
  note i = pbft_init_live [OF assms(1) assms(3) s]
  have c: "pbft_config st = pbft_config st0" by (rule pbft_reachable_config [OF assms(5)])
  have live: "pbft_live st" using i(1) by (simp add: pbft_live_config [OF c])
  have h: "length (honest_addresses st) = 5"
    using i(2) assms(2) by (simp add: honest_addresses_config c)
  have q: "quorum st = 5"
    using i(3) c by (simp add: quorum_def pbft_config_def)
  from pbft_live_round [OF live assms(6) assms(7), of L txs nodes now] h q
  show ?thesis by auto
qed

theorem pbft_liveness_under_bound_witness:
  "pbft_init seven_nodes 2 [1, 4] = Inr seven_pbft \<and> length seven_nodes = 7
   \<and> distinct seven_nodes \<and> sample_ok 7 2 [1, 4] \<and> pbft_reachable plain_lib seven_pbft seven_pbft
   \<and> chain unit_chain \<noteq> [] \<and> hash (last (chain unit_chain)) \<noteq> None
   \<and> (\<exists>res st' bc' b. pbft_run_round plain_lib seven_pbft unit_chain [] seven_nodes 0
                          = Inr (res, st', bc')
         \<and> success res \<and> rounds res = 3 \<and> block res = Some b
         \<and> bc' = unit_chain\<lparr>chain := chain unit_chain @ [b]\<rparr> \<and> committed_count st' = 5)"
proof -
  have i: "pbft_init seven_nodes 2 [1, 4] = Inr seven_pbft"
    by (simp add: pbft_init_def py_sample_def seven_pbft_def seven_nodes_def Let_def)
  have l: "length seven_nodes = 7" and d: "distinct seven_nodes"
    by (simp_all add: seven_nodes_def)
  have s: "sample_ok 7 2 [1, 4]" by (simp add: sample_ok_def)
  have r: "pbft_reachable plain_lib seven_pbft seven_pbft" by (rule reach_init)
  have ne: "chain unit_chain \<noteq> []" and hn: "hash (last (chain unit_chain)) \<noteq> None"
    by (simp_all add: unit_chain_chain genesis_hash)
  from pbft_liveness_under_bound [OF i l d s r ne hn, of "[]" seven_nodes 0]
  have "\<exists>res st' bc' b. pbft_run_round plain_lib seven_pbft unit_chain [] seven_nodes 0
                          = Inr (res, st', bc')
         \<and> success res \<and> rounds res = 3 \<and> block res = Some b
         \<and> bc' = unit_chain\<lparr>chain := chain unit_chain @ [b]\<rparr> \<and> committed_count st' = 5"
    by blast
  with i l d s r ne hn show ?thesis by blast
qed


end
